theory Spec2Isabelle
  imports Main
begin

section \<open>Python strings\<close>

text \<open>
  Strings are lists of characters, a character being a code point below 256. Only the
  \<open>str\<close> methods that \<open>site_to_pdf.py\<close> calls are modelled, each with Python's
  meaning on such text.
\<close>

definition startswith :: "string \<Rightarrow> string \<Rightarrow> bool" where
  "startswith s p = (take (length p) s = p)"

definition endswith :: "string \<Rightarrow> string \<Rightarrow> bool" where
  "endswith s p = (length p \<le> length s \<and> drop (length s - length p) s = p)"

text \<open>\<open>s.lstrip(chars)\<close> removes every leading character that occurs in \<open>chars\<close>.\<close>

definition lstrip :: "string \<Rightarrow> string \<Rightarrow> string" where
  "lstrip chars s = dropWhile (\<lambda>c. c \<in> set chars) s"

text \<open>\<open>sub in s\<close>.\<close>

fun contains :: "string \<Rightarrow> string \<Rightarrow> bool" where
  "contains [] sub = (sub = [])"
| "contains (x # xs) sub = (startswith (x # xs) sub \<or> contains xs sub)"

text \<open>\<open>s.split(c)[0]\<close>: the text before the first occurrence of \<open>c\<close>.\<close>

definition before_first :: "char \<Rightarrow> string \<Rightarrow> string" where
  "before_first c s = takeWhile (\<lambda>x. x \<noteq> c) s"

text \<open>
  \<open>s.lower()\<close>: the upper-case letters below 256 are \<open>A\<close> to \<open>Z\<close> and the
  code points \<open>0xC0\<close> to \<open>0xDE\<close> without the multiplication sign \<open>0xD7\<close>; each
  has its lower-case letter 32 places later.
\<close>

definition lower_char :: "char \<Rightarrow> char" where
  "lower_char c =
     (if ((65::nat) \<le> of_char c \<and> of_char c \<le> (90::nat)) \<or>
         ((192::nat) \<le> of_char c \<and> of_char c \<le> (222::nat) \<and> of_char c \<noteq> (215::nat))
      then char_of (of_char c + (32::nat)) else c)"

definition lower :: "string \<Rightarrow> string" where
  "lower s = map lower_char s"

text \<open>
  \<open>s.strip()\<close> removes the characters for which \<open>str.isspace\<close> holds: below 256
  these are \<open>0x09\<close> to \<open>0x0D\<close>, \<open>0x1C\<close> to \<open>0x1F\<close>, the space, \<open>0x85\<close>
  and \<open>0xA0\<close>.
\<close>

definition is_space :: "char \<Rightarrow> bool" where
  "is_space c =
     (c \<in> set [CHR 0x09, CHR 0x0A, CHR 0x0B, CHR 0x0C, CHR 0x0D,
                CHR 0x1C, CHR 0x1D, CHR 0x1E, CHR 0x1F, CHR '' '', CHR 0x85, CHR 0xA0])"

definition strip :: "string \<Rightarrow> string" where
  "strip s = rev (dropWhile is_space (rev (dropWhile is_space s)))"

fun split_on :: "char \<Rightarrow> string \<Rightarrow> string list" where
  "split_on c [] = [[]]"
| "split_on c (x # xs) =
     (if x = c then [] # split_on c xs
      else (case split_on c xs of [] \<Rightarrow> [[x]] | w # ws \<Rightarrow> (x # w) # ws))"

fun join_sep :: "string list \<Rightarrow> string" where
  "join_sep [] = []"
| "join_sep [p] = p"
| "join_sep (p # q # ps) = p @ CHR ''/'' # join_sep (q # ps)"


section \<open>Paths (pathlib, POSIX flavour)\<close>

text \<open>
  A \<open>pathlib.Path\<close> is its anchor (absolute or not) and its segments. Constructing one
  from a string drops empty segments and \<open>.\<close> segments and keeps \<open>..\<close>, as pathlib
  does. The special root \<open>//\<close> of POSIX is not modelled.
\<close>

datatype path = Path (absolute: bool) (parts: "string list")

definition segments :: "string \<Rightarrow> string list" where
  "segments s = filter (\<lambda>w. w \<noteq> [] \<and> w \<noteq> ''.'') (split_on CHR ''/'' s)"

definition parse_path :: "string \<Rightarrow> path" where
  "parse_path s = Path (startswith s ''/'') (segments s)"

text \<open>\<open>str(p)\<close>.\<close>

definition str_path :: "path \<Rightarrow> string" where
  "str_path p =
     (if parts p = [] then (if absolute p then ''/'' else ''.'')
      else (if absolute p then ''/'' else []) @ join_sep (parts p))"

text \<open>\<open>p / s\<close> for a string \<open>s\<close>: an absolute right operand replaces the left one.\<close>

definition joinpath :: "path \<Rightarrow> string \<Rightarrow> path" where
  "joinpath p s =
     (if startswith s ''/'' then parse_path s
      else Path (absolute p) (parts p @ segments s))"

definition parent :: "path \<Rightarrow> path" where
  "parent p = Path (absolute p) (butlast (parts p))"

text \<open>\<open>p.name\<close>: the last segment, empty for a path without segments.\<close>

definition name :: "path \<Rightarrow> string" where
  "name p = (if parts p = [] then [] else last (parts p))"

text \<open>
  \<open>p.stem\<close>: the name without its last suffix; a name whose only dot is the first or the
  last character has no suffix.
\<close>

definition rfind_dot :: "string \<Rightarrow> nat option" where
  "rfind_dot s =
     (if CHR ''.'' \<in> set s
      then Some (length s - 1 - length (takeWhile (\<lambda>c. c \<noteq> CHR ''.'') (rev s)))
      else None)"

definition stem :: "path \<Rightarrow> string" where
  "stem p =
     (case rfind_dot (name p) of
        None \<Rightarrow> name p
      | Some i \<Rightarrow> if 0 < i \<and> i < length (name p) - 1 then take i (name p) else name p)"

text \<open>
  \<open>p.relative_to(root)\<close> raises \<open>ValueError\<close> unless \<open>root\<close> is a prefix of \<open>p\<close>;
  the result is the relative path of the remaining segments.
\<close>

definition relative_to :: "path \<Rightarrow> path \<Rightarrow> path option" where
  "relative_to p root =
     (if absolute p = absolute root \<and> take (length (parts root)) (parts p) = parts root
      then Some (Path False (drop (length (parts root)) (parts p)))
      else None)"

text \<open>Segments as pathlib produces them: non-empty, not \<open>.\<close>, without a separator.\<close>

definition wf_parts :: "string list \<Rightarrow> bool" where
  "wf_parts ps = (\<forall>w \<in> set ps. w \<noteq> [] \<and> w \<noteq> ''.'' \<and> CHR ''/'' \<notin> set w)"

definition wf_path :: "path \<Rightarrow> bool" where
  "wf_path p = wf_parts (parts p)"


section \<open>The file system and the libraries\<close>

text \<open>
  What BeautifulSoup hands to the program from one parsed file: the text of the first
  \<open>title\<close> element; the first \<open>meta name="description"\<close> element, as its \<open>content\<close>
  attribute when it has one; the \<open>href\<close> values of all anchors that have one, in document
  order; and, for the first \<open>aside.sidebar\<close> and the first \<open>ul.sidebar-links\<close>, the
  \<open>href\<close> values of their \<open>a.sidebar-link\<close> anchors in document order (the empty
  string for an anchor without \<open>href\<close>).
\<close>

record document =
  doc_title :: "string option"
  doc_meta_description :: "string option option"
  doc_hrefs :: "string list"
  doc_aside_sidebar :: "string list option"
  doc_ul_sidebar_links :: "string list option"

text \<open>
  A file-system entry is a directory or a regular file with its size and what opening
  and parsing it gives (\<open>None\<close> when that raises).
\<close>

datatype entry = Dir | File int "document option"

text \<open>
  The world outside the program: the entries of the file system in the order a directory
  walk reports them (no symbolic links), the working directory as \<open>os.getcwd()\<close>
  returns it, \<open>urllib.parse.unquote\<close>, and the order in which \<open>list(set(xs))\<close>
  enumerates a set of strings, which Python leaves unspecified.
\<close>

record env =
  fs_entries :: "(path \<times> entry) list"
  fs_cwd :: string
  unquote :: "string \<Rightarrow> string"
  list_of_set :: "string list \<Rightarrow> string list"

definition set_order_ok :: "(string list \<Rightarrow> string list) \<Rightarrow> bool" where
  "set_order_ok f = (\<forall>xs. set (f xs) = set xs \<and> distinct (f xs))"

definition path_exists :: "env \<Rightarrow> path \<Rightarrow> bool" where
  "path_exists e p = (map_of (fs_entries e) p \<noteq> None)"

definition is_file :: "env \<Rightarrow> path \<Rightarrow> bool" where
  "is_file e p = (case map_of (fs_entries e) p of Some (File sz d) \<Rightarrow> True | _ \<Rightarrow> False)"

text \<open>\<open>open(p)\<close> followed by parsing; \<open>None\<close> when either raises.\<close>

definition open_parse :: "env \<Rightarrow> path \<Rightarrow> document option" where
  "open_parse e p = (case map_of (fs_entries e) p of Some (File sz d) \<Rightarrow> d | _ \<Rightarrow> None)"

text \<open>
  \<open>p.stat().st_size\<close> of a regular file (the program calls it on files it has
  opened); \<open>None\<close> when it raises.
\<close>

definition st_size :: "env \<Rightarrow> path \<Rightarrow> int option" where
  "st_size e p = (case map_of (fs_entries e) p of Some (File sz d) \<Rightarrow> Some sz | _ \<Rightarrow> None)"

text \<open>
  \<open>p.resolve()\<close>: the path is made absolute and its \<open>..\<close> segments are collapsed
  (\<open>..\<close> at the root stays at the root).
\<close>

fun collapse :: "string list \<Rightarrow> string list \<Rightarrow> string list" where
  "collapse acc [] = acc"
| "collapse acc (s # ss) =
     (if s = ''..'' then collapse (butlast acc) ss else collapse (acc @ [s]) ss)"

definition resolve :: "env \<Rightarrow> path \<Rightarrow> path" where
  "resolve e p =
     Path True (collapse [] ((if absolute p then [] else segments (fs_cwd e)) @ parts p))"

text \<open>
  \<open>root.rglob(pattern)\<close> for the patterns \<open>*.html\<close> and \<open>*.htm\<close>: the entries strictly
  below \<open>root\<close> whose name ends with the suffix, in walk order.
\<close>

definition below :: "path \<Rightarrow> path \<Rightarrow> bool" where
  "below root p =
     (absolute p = absolute root \<and> length (parts root) < length (parts p) \<and>
      take (length (parts root)) (parts p) = parts root)"

definition rglob :: "env \<Rightarrow> path \<Rightarrow> string \<Rightarrow> path list" where
  "rglob e root suffix =
     filter (\<lambda>p. below root p \<and> endswith (name p) suffix) (map fst (fs_entries e))"


section \<open>The converter: \<open>class SiteToPDF\<close>\<close>

text \<open>
  One value of the registry \<open>page_info\<close> (a Python dict with these keys; \<open>file\<close> and \<open>size\<close>
  are named \<open>page_file\<close> and \<open>size_bytes\<close> here).
\<close>

record page_record =
  title :: string
  description :: string
  links :: "string list"
  page_file :: path
  depth :: int
  size_bytes :: int
  relative_path :: string

text \<open>
  The fields of \<open>self\<close> that discovery and ordering use. \<open>page_info\<close> is an
  insertion-ordered dict: an association list that \<open>dict_set\<close> updates in place.
  \<open>visited_pages\<close> is cleared at the start of the traversal and read nowhere else; it
  lives in the state of the traversal loop.
\<close>

record site =
  httrack_dir :: path
  max_pages :: "int option"
  html_files :: "path list"
  page_info :: "(string \<times> page_record) list"

datatype error = ValueError

text \<open>\<open>d[k] = v\<close>: a present key keeps its position, a new key goes last.\<close>

fun dict_set :: "'k \<Rightarrow> 'v \<Rightarrow> ('k \<times> 'v) list \<Rightarrow> ('k \<times> 'v) list" where
  "dict_set k v [] = [(k, v)]"
| "dict_set k v (p # ps) = (if fst p = k then (k, v) # ps else p # dict_set k v ps)"

definition keys :: "('k \<times> 'v) list \<Rightarrow> 'k list" where
  "keys d = map fst d"

text \<open>\<open>__init__\<close>.\<close>

definition init_site :: "env \<Rightarrow> string \<Rightarrow> int option \<Rightarrow> site" where
  "init_site e dir cap =
     \<lparr>httrack_dir = resolve e (parse_path dir), max_pages = cap, html_files = [],
      page_info = []\<rparr>"

subsection \<open>\<open>find_html_files\<close>\<close>

definition exclude_patterns :: "string list" where
  "exclude_patterns =
     [''hts-cache'', ''hts-log'', ''backblue.gif'', ''fade.gif'', ''index.html~'', ''/404'']"

definition find_html_files :: "env \<Rightarrow> site \<Rightarrow> site" where
  "find_html_files e self =
     (let found = rglob e (httrack_dir self) ''.html'' @ rglob e (httrack_dir self) ''.htm''
      in self\<lparr>html_files :=
           filter (\<lambda>f. \<not> list_ex (\<lambda>pattern. contains (str_path f) pattern) exclude_patterns)
             found\<rparr>)"

subsection \<open>\<open>analyze_page_structure\<close>\<close>

definition clean_href :: "env \<Rightarrow> string \<Rightarrow> string" where
  "clean_href e href = unquote e (before_first CHR ''?'' (before_first CHR ''#'' href))"

definition keep_link :: "string \<Rightarrow> bool" where
  "keep_link href =
     (href \<noteq> [] \<and> ((endswith href ''.html'' \<or> endswith href ''.htm'') \<or> endswith href ''/''))"

definition extract_links :: "env \<Rightarrow> document \<Rightarrow> string list" where
  "extract_links e soup = filter keep_link (map (clean_href e) (doc_hrefs soup))"

text \<open>The body of the \<open>try\<close> for one file; \<open>None\<close> when it raises.\<close>

definition analyze_file :: "env \<Rightarrow> path \<Rightarrow> path \<Rightarrow> page_record option" where
  "analyze_file e root html_file =
     (case open_parse e html_file of
        None \<Rightarrow> None
      | Some soup \<Rightarrow>
          (case relative_to html_file root of
             None \<Rightarrow> None
           | Some rel \<Rightarrow>
               (case st_size e html_file of
                  None \<Rightarrow> None
                | Some sz \<Rightarrow>
                    Some \<lparr>title = (case doc_title soup of
                                      Some t \<Rightarrow> strip t | None \<Rightarrow> stem html_file),
                          description = (case doc_meta_description soup of
                                           Some (Some c) \<Rightarrow> c | _ \<Rightarrow> []),
                          links = list_of_set e (extract_links e soup),
                          page_file = html_file,
                          depth = int (length (parts rel)) - 1,
                          size_bytes = sz,
                          relative_path = str_path rel\<rparr>)))"

fun analyze_loop ::
  "env \<Rightarrow> path \<Rightarrow> path list \<Rightarrow> (string \<times> page_record) list \<Rightarrow> (string \<times> page_record) list"
where
  "analyze_loop e root [] info = info"
| "analyze_loop e root (html_file # rest) info =
     analyze_loop e root rest
       (case analyze_file e root html_file of
          None \<Rightarrow> info
        | Some r \<Rightarrow> dict_set (str_path html_file) r info)"

definition analyze_page_structure :: "env \<Rightarrow> site \<Rightarrow> site" where
  "analyze_page_structure e self =
     self\<lparr>page_info := analyze_loop e (httrack_dir self) (html_files self) (page_info self)\<rparr>"

subsection \<open>\<open>find_start_page\<close>\<close>

definition index_names :: "string list" where
  "index_names =
     [''index.html'', ''index.htm'', ''home.html'', ''home.htm'',
      ''default.html'', ''default.htm'', ''main.html'', ''main.htm'']"

text \<open>\<open>min(xs, key=...)\<close> on a non-empty list: the first element with the least key.\<close>

fun min_by :: "('a \<Rightarrow> nat) \<Rightarrow> 'a \<Rightarrow> 'a list \<Rightarrow> 'a" where
  "min_by key best [] = best"
| "min_by key best (x # xs) = min_by key (if key x < key best then x else best) xs"

definition segment_count :: "path \<Rightarrow> path \<Rightarrow> nat option" where
  "segment_count root x = map_option (\<lambda>rel. length (parts rel)) (relative_to x root)"

text \<open>
  The third tier sorts with \<open>sorted\<close>, which is stable and evaluates the key of every
  file first; a file that is not below the root makes \<open>relative_to\<close> raise.
\<close>

definition find_start_page :: "env \<Rightarrow> site \<Rightarrow> error + string option" where
  "find_start_page e self =
     (case find (\<lambda>nm. path_exists e (joinpath (httrack_dir self) nm)) index_names of
        Some nm \<Rightarrow> Inr (Some (str_path (joinpath (httrack_dir self) nm)))
      | None \<Rightarrow>
          (let index_files = filter (\<lambda>f. contains (lower (name f)) ''index'') (html_files self)
           in if index_files \<noteq> []
              then Inr (Some (str_path
                     (min_by (\<lambda>x. length (str_path x)) (hd index_files) (tl index_files))))
              else if html_files self \<noteq> []
              then (case those (map (segment_count (httrack_dir self)) (html_files self)) of
                      None \<Rightarrow> Inl ValueError
                    | Some ks \<Rightarrow>
                        Inr (Some (str_path (snd (hd (sort_key fst (zip ks (html_files self))))))))
              else Inr None))"

subsection \<open>\<open>_resolve_link\<close> and \<open>_resolve_page_path\<close>\<close>

definition resolve_link :: "env \<Rightarrow> site \<Rightarrow> string \<Rightarrow> string \<Rightarrow> string option" where
  "resolve_link e self current_page link =
     (let current_dir = parent (parse_path current_page) in
      if \<not> (startswith link ''http://'' \<or> startswith link ''https://'') then
        (let link1 = lstrip ''./'' link;
             linked_file =
               (if startswith link1 ''/'' then joinpath (httrack_dir self) (lstrip ''/'' link1)
                else joinpath current_dir link1);
             linked_file =
               (if endswith link1 ''/'' then joinpath linked_file ''index.html''
                else linked_file);
             linked_file = resolve e linked_file
         in if path_exists e linked_file \<and> is_file e linked_file
            then Some (str_path linked_file) else None)
      else None)"

definition resolve_page_path :: "env \<Rightarrow> string \<Rightarrow> string option" where
  "resolve_page_path e page_path =
     (if endswith page_path ''/'' then
        (let index_path = joinpath (parse_path page_path) ''index.html''
         in if path_exists e index_path then Some (str_path index_path) else None)
      else None)"

subsection \<open>\<open>_extract_sidebar_order\<close>\<close>

text \<open>The loop over the anchors of the navigation container.\<close>

fun sidebar_loop :: "env \<Rightarrow> site \<Rightarrow> string \<Rightarrow> string list \<Rightarrow> string list \<Rightarrow> string list" where
  "sidebar_loop e self index_page [] ordered_pages = ordered_pages"
| "sidebar_loop e self index_page (href # hrefs) ordered_pages =
     sidebar_loop e self index_page hrefs
       (if href \<noteq> [] \<and>
           \<not> (startswith href ''http://'' \<or> startswith href ''https://'' \<or> startswith href ''#'')
        then (case resolve_link e self index_page href of
                Some linked_page \<Rightarrow>
                  if linked_page \<notin> set ordered_pages then ordered_pages @ [linked_page]
                  else ordered_pages
              | None \<Rightarrow> ordered_pages)
        else ordered_pages)"

text \<open>
  \<open>soup.find('aside', class_='sidebar')\<close>, and when there is none
  \<open>soup.find('ul', class_='sidebar-links')\<close>.
\<close>

definition find_sidebar :: "document \<Rightarrow> string list option" where
  "find_sidebar soup =
     (case doc_aside_sidebar soup of Some s \<Rightarrow> Some s | None \<Rightarrow> doc_ul_sidebar_links soup)"

definition extract_sidebar_order :: "env \<Rightarrow> site \<Rightarrow> string \<Rightarrow> string list" where
  "extract_sidebar_order e self index_page =
     (case open_parse e (parse_path index_page) of
        None \<Rightarrow> []
      | Some soup \<Rightarrow>
          (case find_sidebar soup of
             Some hrefs \<Rightarrow> sidebar_loop e self index_page hrefs [index_page]
           | None \<Rightarrow> []))"

subsection \<open>\<open>build_page_tree\<close>\<close>

text \<open>
  \<open>not self.max_pages or n < self.max_pages\<close>: \<open>None\<close> and \<open>0\<close> are both falsy.
\<close>

definition under_cap :: "int option \<Rightarrow> nat \<Rightarrow> bool" where
  "under_cap cap n = (case cap of None \<Rightarrow> True | Some m \<Rightarrow> m = 0 \<or> int n < m)"

text \<open>The sidebar branch: every registry page not yet in the order is appended.\<close>

fun append_missing :: "string list \<Rightarrow> string list \<Rightarrow> string list" where
  "append_missing [] ordered_pages = ordered_pages"
| "append_missing (page_path # rest) ordered_pages =
     append_missing rest
       (if page_path \<notin> set ordered_pages then ordered_pages @ [page_path] else ordered_pages)"

text \<open>The breadth-first branch: the same loop with the cap.\<close>

fun append_unvisited :: "int option \<Rightarrow> string list \<Rightarrow> string list \<Rightarrow> string list" where
  "append_unvisited cap [] ordered_pages = ordered_pages"
| "append_unvisited cap (page_path # rest) ordered_pages =
     append_unvisited cap rest
       (if page_path \<notin> set ordered_pages then
          (if under_cap cap (length ordered_pages) then ordered_pages @ [page_path]
           else ordered_pages)
        else ordered_pages)"

record bfs_state =
  visited :: "string set"
  ordered :: "string list"
  queue :: "string list"

text \<open>The loop over the links of the current page.\<close>

fun enqueue_links ::
  "env \<Rightarrow> site \<Rightarrow> string \<Rightarrow> string set \<Rightarrow> string list \<Rightarrow> string list \<Rightarrow> string list"
where
  "enqueue_links e self current_page seen [] q = q"
| "enqueue_links e self current_page seen (link # rest) q =
     enqueue_links e self current_page seen rest
       (case resolve_link e self current_page link of
          Some linked_page \<Rightarrow> if linked_page \<notin> seen then q @ [linked_page] else q
        | None \<Rightarrow> q)"

text \<open>One iteration of the \<open>while\<close> loop, on a non-empty queue.\<close>

definition bfs_step :: "env \<Rightarrow> site \<Rightarrow> bfs_state \<Rightarrow> bfs_state" where
  "bfs_step e self st =
     (case queue st of
        [] \<Rightarrow> st
      | current_page # rest \<Rightarrow>
          if current_page \<in> visited st then st\<lparr>queue := rest\<rparr>
          else
            (case (if path_exists e (parse_path current_page) then Some current_page
                   else resolve_page_path e current_page) of
               None \<Rightarrow> st\<lparr>queue := rest\<rparr>
             | Some page \<Rightarrow>
                 \<lparr>visited = insert page (visited st),
                  ordered = ordered st @ [page],
                  queue =
                    (case map_of (page_info self) page of
                       Some r \<Rightarrow> enqueue_links e self page (insert page (visited st)) (links r) rest
                     | None \<Rightarrow> rest)\<rparr>))"

definition bfs_continue :: "site \<Rightarrow> bfs_state \<Rightarrow> bool" where
  "bfs_continue self st = (queue st \<noteq> [] \<and> under_cap (max_pages self) (length (ordered st)))"

function bfs_loop :: "env \<Rightarrow> site \<Rightarrow> bfs_state \<Rightarrow> bfs_state" where
  "bfs_loop e self st =
     (if bfs_continue self st then bfs_loop e self (bfs_step e self st) else st)"
  by pat_completeness auto

text \<open>The breadth-first branch: the traversal, then the registry pages it did not reach.\<close>

definition bfs_fallback :: "env \<Rightarrow> site \<Rightarrow> string \<Rightarrow> string list" where
  "bfs_fallback e self start_page =
     append_unvisited (max_pages self) (keys (page_info self))
       (ordered (bfs_loop e self \<lparr>visited = {}, ordered = [], queue = [start_page]\<rparr>))"

definition build_page_tree :: "env \<Rightarrow> site \<Rightarrow> error + string list" where
  "build_page_tree e self =
     (case find_start_page e self of
        Inl err \<Rightarrow> Inl err
      | Inr None \<Rightarrow> Inr (map str_path (html_files self))
      | Inr (Some start_page) \<Rightarrow>
          (let ordered_pages = extract_sidebar_order e self start_page
           in if ordered_pages \<noteq> []
              then Inr (append_missing (keys (page_info self)) ordered_pages)
              else Inr (bfs_fallback e self start_page)))"


section \<open>Notions used to state the claims\<close>

text \<open>
  The navigation container that \<open>_extract_sidebar_order\<close> finds on the start page
  (none when the page cannot be opened), and the target it takes from one anchor.
\<close>

definition nav_container :: "env \<Rightarrow> string \<Rightarrow> string list option" where
  "nav_container e start_page =
     (case open_parse e (parse_path start_page) of
        None \<Rightarrow> None
      | Some soup \<Rightarrow> find_sidebar soup)"

definition nav_target :: "env \<Rightarrow> site \<Rightarrow> string \<Rightarrow> string \<Rightarrow> string option" where
  "nav_target e self start_page href =
     (if href \<noteq> [] \<and>
         \<not> (startswith href ''http://'' \<or> startswith href ''https://'' \<or> startswith href ''#'')
      then resolve_link e self start_page href else None)"

text \<open>A list without its repeated elements, each kept where it first occurs.\<close>

definition first_occurrences :: "'a list \<Rightarrow> 'a list" where
  "first_occurrences xs = rev (remdups (rev xs))"


text \<open>
  The first element of a list whose key is least, the number of segments of a path below
  the root, and the discovered files whose name contains \<open>index\<close> in any case.
\<close>

definition first_least :: "('a \<Rightarrow> nat) \<Rightarrow> 'a list \<Rightarrow> 'a \<Rightarrow> bool" where
  "first_least key xs x =
     (\<exists>i < length xs. xs ! i = x \<and> (\<forall>j < length xs. key x \<le> key (xs ! j)) \<and>
        (\<forall>j < i. key x < key (xs ! j)))"

definition segments_below :: "path \<Rightarrow> path \<Rightarrow> nat" where
  "segments_below root f = length (parts f) - length (parts root)"

definition index_files :: "site \<Rightarrow> path list" where
  "index_files self = filter (\<lambda>f. contains (lower (name f)) ''index'') (html_files self)"


section \<open>Example sites\<close>

text \<open>
  Small file systems on which the model is run: a page is given by its anchors, and a
  page with navigation also by the anchors of its \<open>aside.sidebar\<close>.
\<close>

definition plain_page :: "string list \<Rightarrow> document" where
  "plain_page hrefs =
     \<lparr>doc_title = None, doc_meta_description = None, doc_hrefs = hrefs,
      doc_aside_sidebar = None, doc_ul_sidebar_links = None\<rparr>"

definition nav_page :: "string list \<Rightarrow> string list \<Rightarrow> document" where
  "nav_page hrefs nav = (plain_page hrefs)\<lparr>doc_aside_sidebar := Some nav\<rparr>"

definition site_file :: "string \<Rightarrow> path" where
  "site_file nm = Path True [''site'', nm]"

definition make_env :: "(path \<times> entry) list \<Rightarrow> (string list \<Rightarrow> string list) \<Rightarrow> env" where
  "make_env entries order =
     \<lparr>fs_entries = entries, fs_cwd = ''/'', unquote = (\<lambda>s. s), list_of_set = order\<rparr>"

text \<open>The first steps of \<open>convert\<close>: construct, find the files, index them.\<close>

definition indexed_site :: "env \<Rightarrow> string \<Rightarrow> int option \<Rightarrow> site" where
  "indexed_site e dir cap = analyze_page_structure e (find_html_files e (init_site e dir cap))"

text \<open>
  \<open>index.html\<close> links to \<open>a.html\<close> and \<open>b.html\<close>, \<open>a.html\<close> links to \<open>c.html\<close>,
  no navigation container.
\<close>

definition tree_env :: "(string list \<Rightarrow> string list) \<Rightarrow> env" where
  "tree_env order = make_env
     [(Path True [''site''], Dir),
      (site_file ''index.html'', File 120 (Some (plain_page [''a.html'', ''b.html'']))),
      (site_file ''a.html'', File 80 (Some (plain_page [''c.html'']))),
      (site_file ''b.html'', File 60 (Some (plain_page []))),
      (site_file ''c.html'', File 40 (Some (plain_page [])))]
     order"

text \<open>The same pages, with a navigation container on \<open>index.html\<close> listing \<open>b.html\<close>, \<open>a.html\<close>.\<close>

definition nav_env :: env where
  "nav_env = make_env
     [(Path True [''site''], Dir),
      (site_file ''index.html'',
         File 120 (Some (nav_page [''a.html'', ''b.html''] [''b.html'', ''a.html'']))),
      (site_file ''a.html'', File 80 (Some (plain_page [''c.html'']))),
      (site_file ''b.html'', File 60 (Some (plain_page []))),
      (site_file ''c.html'', File 40 (Some (plain_page [])))]
     remdups"

text \<open>A page in a subdirectory that links to a page at the root of the site.\<close>

definition docs_env :: env where
  "docs_env = make_env
     [(Path True [''site''], Dir),
      (site_file ''b.html'', File 60 (Some (plain_page []))),
      (Path True [''site'', ''docs''], Dir),
      (Path True [''site'', ''docs'', ''a.html''],
         File 80 (Some (plain_page [''/b.html'', ''../b.html''])))]
     remdups"


text \<open>
  \<open>index.html\<close> links to \<open>404.html\<close>, a file the exclusion list keeps out of
  the registry, and to \<open>missing.html\<close>, which does not exist.
\<close>

definition broken_env :: env where
  "broken_env = make_env
     [(Path True [''site''], Dir),
      (site_file ''index.html'', File 120 (Some (plain_page [''404.html'', ''missing.html'']))),
      (site_file ''404.html'', File 30 (Some (plain_page [])))]
     remdups"


text \<open>
  Percent-decoding of the escapes below \<open>0x80\<close>, which is what
  \<open>urllib.parse.unquote\<close> does on the links of the next site.
\<close>

definition hex_digit :: "char \<Rightarrow> nat option" where
  "hex_digit c =
     (let n = (of_char c :: nat) in
      if 48 \<le> n \<and> n \<le> 57 then Some (n - 48)
      else if 65 \<le> n \<and> n \<le> 70 then Some (n - 55)
      else if 97 \<le> n \<and> n \<le> 102 then Some (n - 87)
      else None)"

fun percent_decode :: "string \<Rightarrow> string" where
  "percent_decode (c # h # l # rest) =
     (case (if c = CHR ''%'' then hex_digit h else None, hex_digit l) of
        (Some a, Some b) \<Rightarrow>
          if 16 * a + b < 128 then char_of (16 * a + b) # percent_decode rest
          else c # percent_decode (h # l # rest)
      | _ \<Rightarrow> c # percent_decode (h # l # rest))"
| "percent_decode (c # rest) = c # percent_decode rest"
| "percent_decode [] = []"

text \<open>
  A start page whose anchors carry a fragment, a query, an escape, a repetition, a style
  sheet, an empty and a fragment-only \<open>href\<close>, a directory, a missing page and an
  external page.
\<close>

definition links_env :: env where
  "links_env =
     \<lparr>fs_entries =
        [(Path True [''site''], Dir),
         (site_file ''index.html'',
            File 200 (Some (plain_page
              [''a.html#top'', ''a.html?x=1'', ''my%20page.html'', ''style.css'', '''',
               ''#frag'', ''docs/'', ''missing.html'', ''https://example.org/x.html'',
               ''a.html'']))),
         (site_file ''a.html'', File 80 (Some (plain_page []))),
         (site_file ''my page.html'', File 70 (Some (plain_page []))),
         (Path True [''site'', ''docs''], Dir),
         (Path True [''site'', ''docs'', ''index.html''], File 60 (Some (plain_page [])))],
      fs_cwd = ''/'', unquote = percent_decode, list_of_set = remdups\<rparr>"

text \<open>
  A site with a file that cannot be opened and a page one directory below the root.
\<close>

definition unreadable_env :: env where
  "unreadable_env = make_env
     [(Path True [''site''], Dir),
      (site_file ''index.html'', File 120 (Some (plain_page [''bad.html'', ''docs/a.html'']))),
      (site_file ''bad.html'', File 10 None),
      (Path True [''site'', ''docs''], Dir),
      (Path True [''site'', ''docs'', ''a.html''], File 80 (Some (plain_page [])))]
     remdups"

text \<open>The site after \<open>find_html_files\<close>, before indexing.\<close>

definition found_site :: "env \<Rightarrow> string \<Rightarrow> site" where
  "found_site e dir = find_html_files e (init_site e dir None)"


text \<open>
  A start page whose navigation container holds only an external link and a fragment;
  the directory walk reports \<open>b.html\<close> before \<open>a.html\<close>.
\<close>

definition empty_nav_env :: env where
  "empty_nav_env = make_env
     [(Path True [''site''], Dir),
      (site_file ''index.html'',
         File 120 (Some (nav_page [''a.html'', ''b.html''] [''https://example.org/'', ''#top'']))),
      (site_file ''b.html'', File 60 (Some (plain_page []))),
      (site_file ''a.html'', File 80 (Some (plain_page [])))]
     remdups"


text \<open>
  Sites for the start page. A directory walk reports the files of a directory before
  those of its subdirectories, and the subdirectories in any order. The first site has
  two canonical names at its root.
\<close>

definition home_env :: env where
  "home_env = make_env
     [(Path True [''site''], Dir),
      (site_file ''main.htm'', File 40 (Some (plain_page []))),
      (site_file ''home.html'', File 50 (Some (plain_page []))),
      (Path True [''site'', ''docs''], Dir),
      (Path True [''site'', ''docs'', ''index.html''], File 70 (Some (plain_page [])))]
     remdups"

text \<open>
  No canonical name at the root; three files named like an index page, the last two
  with paths of the same length.
\<close>

definition index_tie_env :: env where
  "index_tie_env = make_env
     [(Path True [''site''], Dir),
      (site_file ''about.html'', File 50 (Some (plain_page []))),
      (Path True [''site'', ''handbook''], Dir),
      (Path True [''site'', ''handbook'', ''index.html''], File 70 (Some (plain_page []))),
      (Path True [''site'', ''api''], Dir),
      (Path True [''site'', ''api'', ''Index.html''], File 90 (Some (plain_page []))),
      (Path True [''site'', ''faq''], Dir),
      (Path True [''site'', ''faq'', ''index.html''], File 30 (Some (plain_page [])))]
     remdups"

text \<open>No file named like an index page; the last two files lie at the same depth.\<close>

definition shallow_env :: env where
  "shallow_env = make_env
     [(Path True [''site''], Dir),
      (Path True [''site'', ''x''], Dir),
      (Path True [''site'', ''x'', ''y''], Dir),
      (Path True [''site'', ''x'', ''y'', ''a.html''], File 70 (Some (plain_page []))),
      (Path True [''site'', ''z''], Dir),
      (Path True [''site'', ''z'', ''b.html''], File 90 (Some (plain_page []))),
      (Path True [''site'', ''w''], Dir),
      (Path True [''site'', ''w'', ''c.html''], File 30 (Some (plain_page [])))]
     remdups"

text \<open>A root without files.\<close>

definition empty_env :: env where
  "empty_env = make_env [(Path True [''site''], Dir)] remdups"


section \<open>Notions used in the proofs\<close>

text \<open>
  The measure of the traversal: the queued paths that do not exist, the registry pages
  not yet visited, the length of the queue.
\<close>

definition missing :: "env \<Rightarrow> string list \<Rightarrow> nat" where
  "missing e q = length (filter (\<lambda>p. \<not> path_exists e (parse_path p)) q)"

definition bfs_measure :: "env \<Rightarrow> site \<Rightarrow> bfs_state \<Rightarrow> nat \<times> nat \<times> nat" where
  "bfs_measure e self st =
     (missing e (queue st), card (set (keys (page_info self)) - visited st), length (queue st))"

text \<open>A cap that caps nothing.\<close>

definition no_cap :: "int option \<Rightarrow> bool" where
  "no_cap cap = (cap = None \<or> cap = Some 0)"

text \<open>
  The invariant of the traversal: the order is the visited set without repetition, every
  page in it exists, and every queued path exists once a page has been visited.
\<close>

definition bfs_inv :: "env \<Rightarrow> bfs_state \<Rightarrow> bool" where
  "bfs_inv e st =
     (distinct (ordered st) \<and> set (ordered st) = visited st \<and>
      (\<forall>p \<in> set (ordered st). path_exists e (parse_path p)) \<and>
      ((visited st = {} \<and> length (queue st) \<le> 1) \<or>
       (\<forall>q \<in> set (queue st). path_exists e (parse_path q))))"


section \<open>Paths and their strings\<close>

lemma split_on_nonempty: "split_on c s \<noteq> []"
  by (induction s) (auto split: list.splits)

lemma split_on_no_sep: "c \<notin> set w \<Longrightarrow> split_on c w = [w]"
  by (induction w) auto

lemma split_on_append: "c \<notin> set w \<Longrightarrow> split_on c (w @ c # rest) = w # split_on c rest"
  by (induction w) auto

lemma split_on_free: "w \<in> set (split_on c s) \<Longrightarrow> c \<notin> set w"
  by (induction s arbitrary: w) (auto split: list.splits if_splits)

lemma wf_segments: "wf_parts (segments s)"
  by (auto simp: wf_parts_def segments_def dest: split_on_free)

lemma split_join: "wf_parts ps \<Longrightarrow> ps \<noteq> [] \<Longrightarrow> split_on CHR ''/'' (join_sep ps) = ps"
  by (induction ps rule: join_sep.induct) (auto simp: wf_parts_def split_on_no_sep split_on_append)

lemma segments_join: "wf_parts ps \<Longrightarrow> segments (join_sep ps) = ps"
proof (cases "ps = []")
  case True
  then show ?thesis by (simp add: segments_def)
next
  case False
  assume "wf_parts ps"
  with False have "split_on CHR ''/'' (join_sep ps) = ps" by (rule_tac split_join)
  moreover from \<open>wf_parts ps\<close> have "filter (\<lambda>w. w \<noteq> [] \<and> w \<noteq> ''.'') ps = ps"
    by (auto simp: wf_parts_def intro: filter_True)
  ultimately show ?thesis by (simp add: segments_def)
qed

lemma parse_str_abs: "wf_parts ps \<Longrightarrow> parse_path (str_path (Path True ps)) = Path True ps"
proof (cases "ps = []")
  case True
  then show ?thesis by (simp add: parse_path_def str_path_def segments_def startswith_def)
next
  case False
  assume wf: "wf_parts ps"
  have "segments (CHR ''/'' # join_sep ps) = segments (join_sep ps)"
    by (simp add: segments_def)
  with wf False show ?thesis
    by (simp add: parse_path_def str_path_def startswith_def segments_join)
qed

lemma wf_parts_append: "wf_parts (xs @ ys) = (wf_parts xs \<and> wf_parts ys)"
  by (auto simp: wf_parts_def)

lemma wf_parts_butlast: "wf_parts xs \<Longrightarrow> wf_parts (butlast xs)"
  by (auto simp: wf_parts_def dest: in_set_butlastD)

lemma wf_parts_Cons: "wf_parts (x # xs) = (wf_parts [x] \<and> wf_parts xs)"
  by (auto simp: wf_parts_def)

lemma wf_collapse: "wf_parts acc \<Longrightarrow> wf_parts ss \<Longrightarrow> wf_parts (collapse acc ss)"
proof (induction acc ss rule: collapse.induct)
  case (1 acc)
  then show ?case by simp
next
  case (2 acc s ss)
  from "2.prems"(2) have s: "wf_parts [s]" and ss: "wf_parts ss"
    using wf_parts_Cons[of s ss] by simp_all
  show ?case
  proof (cases "s = ''..''")
    case True
    with 2 ss show ?thesis by (simp add: wf_parts_butlast)
  next
    case False
    with 2 s ss show ?thesis by (simp add: wf_parts_append)
  qed
qed

lemma wf_resolve: "wf_parts (parts p) \<Longrightarrow> wf_parts (parts (resolve e p))"
proof -
  assume "wf_parts (parts p)"
  then have "wf_parts ((if absolute p then [] else segments (fs_cwd e)) @ parts p)"
    by (simp add: wf_parts_append wf_segments) (simp add: wf_parts_def)
  moreover have "wf_parts []" by (simp add: wf_parts_def)
  ultimately show ?thesis by (simp add: resolve_def wf_collapse)
qed

lemma parse_str_resolve:
  "wf_parts (parts p) \<Longrightarrow> parse_path (str_path (resolve e p)) = resolve e p"
proof -
  assume "wf_parts (parts p)"
  then have "wf_parts (parts (resolve e p))" by (rule wf_resolve)
  moreover have "resolve e p = Path True (parts (resolve e p))" by (simp add: resolve_def)
  ultimately show ?thesis using parse_str_abs[of "parts (resolve e p)"] by simp
qed

lemma lstrip_no_slash: "\<not> startswith (lstrip ''./'' link) ''/''"
proof (cases "dropWhile (\<lambda>c. c \<in> set ''./'') link")
  case Nil
  then have "lstrip ''./'' link = []" unfolding lstrip_def .
  then show ?thesis by (simp add: startswith_def)
next
  case (Cons a as)
  then have "a \<notin> set ''./''"
    using hd_dropWhile[of "\<lambda>c. c \<in> set ''./''" link] by (metis list.sel(1) list.distinct(1))
  moreover from Cons have "lstrip ''./'' link = a # as" unfolding lstrip_def .
  ultimately show ?thesis by (simp add: startswith_def)
qed

lemma wf_joinpath: "wf_parts (parts p) \<Longrightarrow> wf_parts (parts (joinpath p s))"
  by (simp add: joinpath_def parse_path_def wf_parts_append wf_segments)

lemma wf_parent_parse: "wf_parts (parts (parent (parse_path s)))"
  by (simp add: parent_def parse_path_def wf_parts_butlast wf_segments)


lemma resolve_link_exists:
  assumes "resolve_link e self current_page link = Some s"
  shows "path_exists e (parse_path s) \<and> is_file e (parse_path s)"
proof -
  define link1 where "link1 = lstrip ''./'' link"
  define lf where "lf = (let f = joinpath (parent (parse_path current_page)) link1
                         in if endswith link1 ''/'' then joinpath f ''index.html'' else f)"
  have wf: "wf_parts (parts lf)"
    by (simp add: lf_def Let_def wf_joinpath wf_parent_parse)
  have ns: "\<not> startswith link1 ''/''" by (simp add: link1_def lstrip_no_slash)
  from assms ns have "s = str_path (resolve e lf)" and "path_exists e (resolve e lf)"
    and "is_file e (resolve e lf)"
    by (auto simp: resolve_link_def Let_def link1_def[symmetric] lf_def split: if_splits)
  with wf show ?thesis by (simp add: parse_str_resolve)
qed

lemma join_sep_hd: "ps \<noteq> [] \<Longrightarrow> hd ps \<noteq> [] \<Longrightarrow> join_sep ps \<noteq> [] \<and> hd (join_sep ps) = hd (hd ps)"
  by (induction ps rule: join_sep.induct) auto

lemma parse_str_rel: "wf_parts ps \<Longrightarrow> parse_path (str_path (Path False ps)) = Path False ps"
proof (cases "ps = []")
  case True
  then show ?thesis by (simp add: parse_path_def str_path_def segments_def startswith_def)
next
  case False
  assume wf: "wf_parts ps"
  with False have "hd ps \<noteq> []" and "hd ps \<in> set ps" by (auto simp: wf_parts_def)
  with wf have "hd (hd ps) \<noteq> CHR ''/''" by (metis hd_in_set wf_parts_def)
  moreover from False \<open>hd ps \<noteq> []\<close> have "join_sep ps \<noteq> []" and "hd (join_sep ps) = hd (hd ps)"
    using join_sep_hd by blast+
  ultimately have "\<not> startswith (join_sep ps) ''/''"
    by (cases "join_sep ps") (auto simp: startswith_def)
  with wf False show ?thesis
    by (simp add: parse_path_def str_path_def segments_join)
qed

lemma parse_str: "wf_path p \<Longrightarrow> parse_path (str_path p) = p"
  by (cases p; cases "absolute p") (simp_all add: wf_path_def parse_str_abs parse_str_rel)

lemma wf_parse_path: "wf_path (parse_path s)"
  by (simp add: wf_path_def parse_path_def wf_segments)

subsection \<open>The traversal terminates\<close>

text \<open>
  A queued path that does not exist can only leave the queue; a page of the registry is
  visited once; every other iteration shortens the queue.
\<close>

lemma missing_enqueue:
  "missing e (enqueue_links e self cur seen ls q) = missing e q"
proof (induction ls arbitrary: q)
  case Nil
  then show ?case by simp
next
  case (Cons l ls)
  show ?case
  proof (cases "resolve_link e self cur l")
    case None
    then show ?thesis using Cons by simp
  next
    case (Some s)
    then have "path_exists e (parse_path s)" using resolve_link_exists by blast
    then have "missing e (q @ [s]) = missing e q" by (simp add: missing_def)
    with Some Cons show ?thesis by simp
  qed
qed

lemma bfs_step_decreases:
  assumes "queue st \<noteq> []"
  shows "(bfs_measure e self (bfs_step e self st), bfs_measure e self st)
           \<in> less_than <*lex*> less_than <*lex*> less_than"
proof -
  from assms obtain cur rest where q: "queue st = cur # rest" by (cases "queue st") auto
  let ?K = "set (keys (page_info self))"
  have fin: "finite ?K" by simp
  show ?thesis
  proof (cases "cur \<in> visited st")
    case True
    then show ?thesis using q by (simp add: bfs_step_def bfs_measure_def missing_def)
  next
    case nv: False
    show ?thesis
    proof (cases "path_exists e (parse_path cur)")
      case ex: True
      show ?thesis
      proof (cases "map_of (page_info self) cur")
        case None
        then have "cur \<notin> ?K" by (simp add: keys_def map_of_eq_None_iff)
        then have "?K - insert cur (visited st) = ?K - visited st" by auto
        with None nv ex q show ?thesis
          by (simp add: bfs_step_def bfs_measure_def missing_def)
      next
        case (Some r)
        then have "cur \<in> ?K" by (force simp: keys_def dest: map_of_SomeD)
        with nv have "card (?K - insert cur (visited st)) < card (?K - visited st)"
          by (intro psubset_card_mono) auto
        with Some nv ex q show ?thesis
          by (simp add: bfs_step_def bfs_measure_def missing_enqueue) (simp add: missing_def)
      qed
    next
      case nex: False
      then have m: "missing e (cur # rest) = Suc (missing e rest)" by (simp add: missing_def)
      show ?thesis
      proof (cases "resolve_page_path e cur")
        case None
        with nv nex q m show ?thesis by (simp add: bfs_step_def bfs_measure_def)
      next
        case (Some page)
        with nv nex q m show ?thesis
          by (simp add: bfs_step_def bfs_measure_def missing_enqueue split: option.splits)
      qed
    qed
  qed
qed

termination bfs_loop
proof (relation "inv_image (less_than <*lex*> less_than <*lex*> less_than)
                   (\<lambda>(e, self, st). bfs_measure e self st)")
  show "wf (inv_image (less_than <*lex*> less_than <*lex*> less_than)
              (\<lambda>(e, self, st). bfs_measure e self st))"
    by (intro wf_inv_image wf_lex_prod wf_less_than)
next
  fix e self st
  assume "bfs_continue self st"
  then have "queue st \<noteq> []" by (simp add: bfs_continue_def)
  then show "((e, self, bfs_step e self st), (e, self, st))
               \<in> inv_image (less_than <*lex*> less_than <*lex*> less_than)
                    (\<lambda>(e, self, st). bfs_measure e self st)"
    using bfs_step_decreases[of st e self] by simp
qed

declare bfs_loop.simps [simp del]


section \<open>The order builder\<close>

subsection \<open>The cap is read only through \<open>under_cap\<close>\<close>

lemma resolve_link_root:
  assumes "httrack_dir s1 = httrack_dir s2"
  shows "resolve_link e s1 cur l = resolve_link e s2 cur l"
  unfolding resolve_link_def assms by (rule refl)

lemma resolve_link_max_pages [simp]:
  "resolve_link e (self\<lparr>max_pages := c\<rparr>) cur l = resolve_link e self cur l"
  by (rule resolve_link_root) simp

lemma enqueue_links_max_pages [simp]:
  "enqueue_links e (self\<lparr>max_pages := c\<rparr>) cur seen ls q = enqueue_links e self cur seen ls q"
  by (induction ls arbitrary: q) simp_all

lemma bfs_step_fields:
  assumes "page_info s1 = page_info s2"
    and "\<And>cur seen ls q. enqueue_links e s1 cur seen ls q = enqueue_links e s2 cur seen ls q"
  shows "bfs_step e s1 st = bfs_step e s2 st"
  unfolding bfs_step_def assms by (rule refl)

lemma bfs_step_max_pages [simp]:
  "bfs_step e (self\<lparr>max_pages := c\<rparr>) st = bfs_step e self st"
  by (rule bfs_step_fields) simp_all

lemma find_start_page_fields:
  assumes "httrack_dir s1 = httrack_dir s2" and "html_files s1 = html_files s2"
  shows "find_start_page e s1 = find_start_page e s2"
  unfolding find_start_page_def assms by (rule refl)

lemma find_start_page_max_pages [simp]:
  "find_start_page e (self\<lparr>max_pages := c\<rparr>) = find_start_page e self"
  by (rule find_start_page_fields) simp_all

lemma sidebar_loop_max_pages [simp]:
  "sidebar_loop e (self\<lparr>max_pages := c\<rparr>) s hs acc = sidebar_loop e self s hs acc"
  by (induction hs arbitrary: acc) simp_all

lemma extract_sidebar_order_max_pages [simp]:
  "extract_sidebar_order e (self\<lparr>max_pages := c\<rparr>) s = extract_sidebar_order e self s"
  unfolding extract_sidebar_order_def sidebar_loop_max_pages by (rule refl)

lemma under_cap_no_cap: "no_cap cap \<Longrightarrow> under_cap cap n"
  by (auto simp: no_cap_def under_cap_def)

lemma bfs_loop_no_cap:
  "no_cap (max_pages self) \<Longrightarrow> bfs_loop e (self\<lparr>max_pages := None\<rparr>) st = bfs_loop e self st"
proof (induction e self st rule: bfs_loop.induct)
  case (1 e self st)
  have c: "bfs_continue (self\<lparr>max_pages := None\<rparr>) st = bfs_continue self st"
    using "1.prems" by (simp add: bfs_continue_def under_cap_no_cap) (simp add: under_cap_def)
  show ?case
  proof (cases "bfs_continue self st")
    case True
    with 1 c show ?thesis 
      by (subst bfs_loop.simps, subst (2) bfs_loop.simps) simp
  next
    case False
    with c show ?thesis by (subst bfs_loop.simps, subst (2) bfs_loop.simps) simp
  qed
qed

lemma bfs_loop_queue_empty:
  "no_cap (max_pages self) \<Longrightarrow> queue (bfs_loop e self st) = []"
proof (induction e self st rule: bfs_loop.induct)
  case (1 e self st)
  show ?case
  proof (cases "bfs_continue self st")
    case True
    with 1 show ?thesis by (subst bfs_loop.simps) simp
  next
    case False
    with "1.prems" have "queue st = []" by (simp add: bfs_continue_def under_cap_no_cap)
    with False show ?thesis by (subst bfs_loop.simps) simp
  qed
qed

lemma append_unvisited_no_cap:
  "no_cap cap \<Longrightarrow> append_unvisited cap ks ord = append_missing ks ord"
  by (induction ks arbitrary: ord) (simp_all add: under_cap_no_cap)

lemma append_missing_mono: "set ord \<subseteq> set (append_missing ks ord)"
proof (induction ks arbitrary: ord)
  case Nil
  then show ?case by simp
next
  case (Cons k ks)
  have "set ord \<subseteq> set (if k \<notin> set ord then ord @ [k] else ord)" by auto
  also have "\<dots> \<subseteq> set (append_missing (k # ks) ord)" using Cons by simp
  finally show ?case .
qed

lemma append_missing_keys: "set ks \<subseteq> set (append_missing ks ord)"
proof (induction ks arbitrary: ord)
  case Nil
  then show ?case by simp
next
  case (Cons k ks)
  let ?o = "if k \<notin> set ord then ord @ [k] else ord"
  have "k \<in> set ?o" by simp
  then have "k \<in> set (append_missing ks ?o)" using append_missing_mono by blast
  moreover have "set ks \<subseteq> set (append_missing ks ?o)" by (rule Cons)
  ultimately show ?case by simp
qed


subsection \<open>The traversal visits existing paths, each once\<close>

lemma resolve_page_path_exists:
  assumes "resolve_page_path e s = Some p"
  shows "path_exists e (parse_path p)"
proof -
  let ?ip = "joinpath (parse_path s) ''index.html''"
  have "wf_path ?ip" using wf_parse_path[of s] by (simp add: wf_path_def wf_joinpath)
  moreover from assms have "p = str_path ?ip" and "path_exists e ?ip"
    by (auto simp: resolve_page_path_def Let_def split: if_splits)
  ultimately show ?thesis by (simp add: parse_str)
qed

lemma enqueue_links_exist:
  "q \<in> set (enqueue_links e self cur seen ls q0) \<Longrightarrow> q \<in> set q0 \<or> path_exists e (parse_path q)"
proof (induction ls arbitrary: q0)
  case Nil
  then show ?case by simp
next
  case (Cons l ls)
  show ?case
  proof (cases "resolve_link e self cur l")
    case None
    with Cons show ?thesis by simp
  next
    case (Some s)
    then have ex: "path_exists e (parse_path s)" using resolve_link_exists by blast
    from Cons.prems Some
    have "q \<in> set (enqueue_links e self cur seen ls (if s \<notin> seen then q0 @ [s] else q0))"
      by simp
    then have "q \<in> set (if s \<notin> seen then q0 @ [s] else q0) \<or> path_exists e (parse_path q)"
      by (rule Cons.IH)
    with ex show ?thesis by (auto split: if_splits)
  qed
qed

lemma bfs_step_inv:
  assumes inv: "bfs_inv e st"
  shows "bfs_inv e (bfs_step e self st)"
proof (cases "queue st")
  case Nil
  with inv show ?thesis by (simp add: bfs_step_def)
next
  case (Cons cur rest)
  from inv Cons have rest: "(visited st = {} \<and> rest = []) \<or>
       (\<forall>q \<in> set rest. path_exists e (parse_path q))"
    by (auto simp: bfs_inv_def)
  show ?thesis
  proof (cases "cur \<in> visited st")
    case True
    with inv Cons show ?thesis by (auto simp: bfs_step_def bfs_inv_def)
  next
    case nv: False
    let ?page = "if path_exists e (parse_path cur) then Some cur else resolve_page_path e cur"
    show ?thesis
    proof (cases ?page)
      case None
      with nv inv Cons show ?thesis by (auto simp: bfs_step_def bfs_inv_def)
    next
      case (Some page)
      have ex: "path_exists e (parse_path page)"
        using Some resolve_page_path_exists by (auto split: if_splits)
      have fresh: "page \<notin> visited st"
      proof (cases "path_exists e (parse_path cur)")
        case True
        with Some nv show ?thesis by simp
      next
        case False
        with inv Cons have "visited st = {}" by (auto simp: bfs_inv_def)
        then show ?thesis by simp
      qed
      let ?q = "case map_of (page_info self) page of
                  Some r \<Rightarrow> enqueue_links e self page (insert page (visited st)) (links r) rest
                | None \<Rightarrow> rest"
      have step: "bfs_step e self st =
                    \<lparr>visited = insert page (visited st), ordered = ordered st @ [page], queue = ?q\<rparr>"
        using Cons nv Some by (simp add: bfs_step_def)
      have restex: "\<forall>q \<in> set rest. path_exists e (parse_path q)"
      proof (cases "path_exists e (parse_path cur)")
        case True
        with rest show ?thesis by auto
      next
        case False
        with inv Cons have "visited st = {} \<and> length (queue st) \<le> 1" by (auto simp: bfs_inv_def)
        with Cons show ?thesis by simp
      qed
      have qex: "\<forall>q \<in> set ?q. path_exists e (parse_path q)"
        using restex enqueue_links_exist by (fastforce split: option.splits)
      from inv fresh ex qex show ?thesis
        unfolding step by (simp add: bfs_inv_def)
    qed
  qed
qed

lemma bfs_loop_inv: "bfs_inv e st \<Longrightarrow> bfs_inv e (bfs_loop e self st)"
proof (induction e self st rule: bfs_loop.induct)
  case (1 e self st)
  show ?case
  proof (cases "bfs_continue self st")
    case True
    with 1 show ?thesis by (subst bfs_loop.simps) (simp add: bfs_step_inv)
  next
    case False
    with 1 show ?thesis by (subst bfs_loop.simps) simp
  qed
qed

lemma append_unvisited_distinct:
  "distinct ord \<Longrightarrow> distinct (append_unvisited cap ks ord)"
  by (induction ks arbitrary: ord) simp_all

lemma append_unvisited_subset:
  "set (append_unvisited cap ks ord) \<subseteq> set ord \<union> set ks"
proof (induction ks arbitrary: ord)
  case Nil
  then show ?case by simp
next
  case (Cons k ks)
  let ?o = "if k \<notin> set ord then (if under_cap cap (length ord) then ord @ [k] else ord) else ord"
  have "set (append_unvisited cap ks ?o) \<subseteq> set ?o \<union> set ks" by (rule Cons.IH)
  moreover have "set ?o \<subseteq> set ord \<union> {k}" by auto
  ultimately show ?case by auto
qed


section \<open>The registry\<close>

lemma map_of_dict_set: "map_of (dict_set k v d) k' = (if k' = k then Some v else map_of d k')"
  by (induction d) auto

lemma keys_dict_set: "set (keys (dict_set k v d)) = insert k (set (keys d))"
  by (induction d) (auto simp: keys_def)

lemma analyze_loop_lookup:
  "map_of (analyze_loop e root files info) k = Some r \<Longrightarrow>
   map_of info k = Some r \<or> (\<exists>f \<in> set files. k = str_path f \<and> analyze_file e root f = Some r)"
proof (induction files arbitrary: info)
  case Nil
  then show ?case by simp
next
  case (Cons f files)
  let ?info = "case analyze_file e root f of None \<Rightarrow> info | Some r \<Rightarrow> dict_set (str_path f) r info"
  from Cons.prems have "map_of (analyze_loop e root files ?info) k = Some r" by simp
  then have "map_of ?info k = Some r \<or>
      (\<exists>g \<in> set files. k = str_path g \<and> analyze_file e root g = Some r)"
    by (rule Cons.IH)
  then show ?case
    by (cases "analyze_file e root f") (auto simp: map_of_dict_set split: if_splits)
qed

lemma analyze_loop_filter:
  "analyze_loop e root files info =
   analyze_loop e root (filter (\<lambda>f. analyze_file e root f \<noteq> None) files) info"
  by (induction files arbitrary: info) auto

lemma analyze_loop_keys:
  "set (keys (analyze_loop e root files info)) =
   set (keys info) \<union> str_path ` {f \<in> set files. analyze_file e root f \<noteq> None}"
proof (induction files arbitrary: info)
  case Nil
  then show ?case by simp
next
  case (Cons f files)
  show ?case
  proof (cases "analyze_file e root f")
    case None
    then show ?thesis using Cons[of info] by auto
  next
    case (Some r)
    then show ?thesis using Cons[of "dict_set (str_path f) r info"]
      by (auto simp: keys_dict_set)
  qed
qed

lemma str_path_inj: "wf_path p \<Longrightarrow> wf_path q \<Longrightarrow> str_path p = str_path q \<Longrightarrow> p = q"
  by (metis parse_str)

lemma analyze_loop_stored:
  assumes "\<forall>g \<in> set files. wf_path g" and "wf_path f"
    and "f \<in> set files \<and> analyze_file e root f = Some r \<or>
         f \<notin> set files \<and> map_of info (str_path f) = Some r"
  shows "map_of (analyze_loop e root files info) (str_path f) = Some r"
  using assms
proof (induction files arbitrary: info)
  case Nil
  then show ?case by simp
next
  case (Cons g files)
  let ?info = "case analyze_file e root g of None \<Rightarrow> info | Some r \<Rightarrow> dict_set (str_path g) r info"
  have wf: "\<forall>h \<in> set files. wf_path h" and wg: "wf_path g" using Cons.prems(1) by simp_all
  have "f \<in> set files \<and> analyze_file e root f = Some r \<or>
        f \<notin> set files \<and> map_of ?info (str_path f) = Some r"
  proof (cases "f \<in> set files")
    case True
    with Cons.prems(3) show ?thesis by auto
  next
    case nf: False
    show ?thesis
    proof (cases "g = f")
      case True
      with nf Cons.prems(3) show ?thesis by (auto simp: map_of_dict_set)
    next
      case False
      then have "str_path g \<noteq> str_path f" using str_path_inj wg Cons.prems(2) by blast
      with nf False Cons.prems(3) show ?thesis
        by (cases "analyze_file e root g") (auto simp: map_of_dict_set)
    qed
  qed
  with wf Cons.prems(2) have "map_of (analyze_loop e root files ?info) (str_path f) = Some r"
    by (rule Cons.IH)
  then show ?case by simp
qed

lemma analyze_loop_skipped:
  assumes "\<forall>g \<in> set files. wf_path g" and "wf_path f" and "analyze_file e root f = None"
    and "map_of info (str_path f) = None"
  shows "map_of (analyze_loop e root files info) (str_path f) = None"
proof (rule ccontr)
  assume "map_of (analyze_loop e root files info) (str_path f) \<noteq> None"
  then obtain r where "map_of (analyze_loop e root files info) (str_path f) = Some r" by auto
  then have "map_of info (str_path f) = Some r \<or>
     (\<exists>g \<in> set files. str_path f = str_path g \<and> analyze_file e root g = Some r)"
    by (rule analyze_loop_lookup)
  with assms(4) obtain g where "g \<in> set files" and "str_path f = str_path g"
    and g: "analyze_file e root g = Some r" by auto
  with assms(1,2) have "g = f" using str_path_inj by metis
  with g assms(3) show False by simp
qed

lemma endswith_iff: "endswith s p \<longleftrightarrow> (\<exists>q. s = q @ p)"
proof
  assume "endswith s p"
  then have "s = take (length s - length p) s @ p"
    by (metis append_take_drop_id endswith_def)
  then show "\<exists>q. s = q @ p" ..
next
  assume "\<exists>q. s = q @ p"
  then show "endswith s p" by (auto simp: endswith_def)
qed

lemma enqueue_links_eq:
  "enqueue_links e self cur seen ls q =
   q @ filter (\<lambda>p. p \<notin> seen) (List.map_filter (resolve_link e self cur) ls)"
proof (induction ls arbitrary: q)
  case Nil
  then show ?case by (simp add: map_filter_simps)
next
  case (Cons l ls)
  then show ?case
    by (cases "resolve_link e self cur l") (simp_all add: map_filter_simps)
qed

lemma extract_links_set:
  "set (extract_links e soup) =
     {l. \<exists>h \<in> set (doc_hrefs soup).
           l = unquote e (takeWhile (\<lambda>c. c \<noteq> CHR ''?'') (takeWhile (\<lambda>c. c \<noteq> CHR ''#'') h)) \<and>
           l \<noteq> [] \<and> (\<exists>p. l = p @ ''.html'' \<or> l = p @ ''.htm'' \<or> l = p @ ''/'')}"
  by (auto simp: extract_links_def keep_link_def clean_href_def before_first_def endswith_iff)

lemma analyze_file_fields:
  assumes "analyze_file e root f = Some r"
  shows "\<exists>soup rel. open_parse e f = Some soup \<and> relative_to f root = Some rel \<and>
           links r = list_of_set e (extract_links e soup) \<and>
           relative_path r = str_path rel \<and> depth r = int (length (parts rel)) - 1"
  using assms by (auto simp: analyze_file_def split: option.splits)

lemma count_join_sep:
  "wf_parts ps \<Longrightarrow> ps \<noteq> [] \<Longrightarrow> count_list (join_sep ps) CHR ''/'' = length ps - 1"
  by (induction ps rule: join_sep.induct) (auto simp: wf_parts_def)

lemma relative_to_below:
  assumes "below root f" and "relative_to f root = Some rel"
  shows "parts rel \<noteq> [] \<and> absolute rel = False \<and> parts f = parts root @ parts rel"
proof -
  from assms(2) have rel: "rel = Path False (drop (length (parts root)) (parts f))"
    and pre: "take (length (parts root)) (parts f) = parts root"
    by (auto simp: relative_to_def split: if_splits)
  from pre have "parts f = parts root @ drop (length (parts root)) (parts f)"
    by (metis append_take_drop_id)
  with rel assms(1) show ?thesis by (auto simp: below_def)
qed


subsection \<open>The navigation order\<close>

lemma remdups_snoc: "remdups (xs @ [t]) = remdups (filter (\<lambda>x. x \<noteq> t) xs) @ [t]"
  by (induction xs) auto

lemma first_occurrences_Cons:
  "first_occurrences (t # xs) = t # first_occurrences (filter (\<lambda>x. x \<noteq> t) xs)"
  by (simp add: first_occurrences_def remdups_snoc rev_filter)

lemma sidebar_loop_eq:
  "sidebar_loop e self s hrefs acc =
   acc @ first_occurrences
           (filter (\<lambda>t. t \<notin> set acc) (List.map_filter (nav_target e self s) hrefs))"
proof (induction hrefs arbitrary: acc)
  case Nil
  then show ?case by (simp add: first_occurrences_def map_filter_simps)
next
  case (Cons h hrefs)
  let ?ts = "List.map_filter (nav_target e self s) hrefs"
  show ?case
  proof (cases "nav_target e self s h")
    case None
    then have "sidebar_loop e self s (h # hrefs) acc = sidebar_loop e self s hrefs acc"
      by (auto simp: nav_target_def split: if_splits)
    with None Cons show ?thesis by (simp add: map_filter_simps)
  next
    case (Some t)
    then have step: "sidebar_loop e self s (h # hrefs) acc =
        sidebar_loop e self s hrefs (if t \<notin> set acc then acc @ [t] else acc)"
      by (auto simp: nav_target_def split: if_splits)
    show ?thesis
    proof (cases "t \<in> set acc")
      case True
      with step Some Cons show ?thesis by (simp add: map_filter_simps)
    next
      case False
      have "filter (\<lambda>x. x \<noteq> t) (filter (\<lambda>t. t \<notin> set acc) ?ts) =
            filter (\<lambda>u. u \<notin> set (acc @ [t])) ?ts"
        by (auto intro: filter_cong)
      with False step Some Cons[of "acc @ [t]"] show ?thesis
        by (simp add: map_filter_simps first_occurrences_Cons)
    qed
  qed
qed

lemma append_missing_eq:
  "distinct ks \<Longrightarrow> append_missing ks ord = ord @ filter (\<lambda>k. k \<notin> set ord) ks"
proof (induction ks arbitrary: ord)
  case Nil
  then show ?case by simp
next
  case (Cons k ks)
  then have "k \<notin> set ks" and d: "distinct ks" by simp_all
  then have "filter (\<lambda>x. x \<notin> set (ord @ [k])) ks = filter (\<lambda>x. x \<notin> set ord) ks"
    by (auto intro: filter_cong)
  with Cons.IH[OF d] show ?case by simp
qed


subsection \<open>The registry of the example tree\<close>

lemma tree_registry:
  "indexed_site (tree_env order) ''/site'' None =
     \<lparr>httrack_dir = Path True [''site''], max_pages = None,
      html_files = [site_file ''index.html'', site_file ''a.html'', site_file ''b.html'',
                    site_file ''c.html''],
      page_info =
        [(''/site/index.html'',
          \<lparr>title = ''index'', description = [], links = order [''a.html'', ''b.html''],
           page_file = site_file ''index.html'', depth = 0, size_bytes = 120,
           relative_path = ''index.html''\<rparr>),
         (''/site/a.html'',
          \<lparr>title = ''a'', description = [], links = order [''c.html''],
           page_file = site_file ''a.html'', depth = 0, size_bytes = 80,
           relative_path = ''a.html''\<rparr>),
         (''/site/b.html'',
          \<lparr>title = ''b'', description = [], links = order [],
           page_file = site_file ''b.html'', depth = 0, size_bytes = 60,
           relative_path = ''b.html''\<rparr>),
         (''/site/c.html'',
          \<lparr>title = ''c'', description = [], links = order [],
           page_file = site_file ''c.html'', depth = 0, size_bytes = 40,
           relative_path = ''c.html''\<rparr>)]\<rparr>"
  by code_simp


lemma distinct_set_two:
  assumes "distinct ys" and "set ys = {x, y}" and "x \<noteq> y"
  shows "ys = [x, y] \<or> ys = [y, x]"
proof -
  from assms have "length ys = 2" using distinct_card[of ys] by simp
  then obtain u v where ys: "ys = [u, v]"
    by (metis (no_types, opaque_lifting) One_nat_def Suc_1 Suc_length_conv length_0_conv)
  with assms(2) have "{u, v} = {x, y}" by simp
  then have "u = x \<and> v = y \<or> u = y \<and> v = x" by (simp add: doubleton_eq_iff)
  with ys show ?thesis by auto
qed

lemma distinct_set_one:
  assumes "distinct ys" and "set ys = {x}"
  shows "ys = [x]"
proof -
  from assms have "length ys = 1" using distinct_card[of ys] by simp
  then obtain u where "ys = [u]" by (cases ys) auto
  with assms(2) show ?thesis by simp
qed


section \<open>The start page\<close>

lemma first_least_keep:
  assumes "first_least key pre best" and "key best \<le> key x"
  shows "first_least key (pre @ [x]) best"
proof -
  from assms(1) obtain i where i: "i < length pre" "pre ! i = best"
    and le: "\<forall>j < length pre. key best \<le> key (pre ! j)"
    and lt: "\<forall>j < i. key best < key (pre ! j)"
    by (auto simp: first_least_def)
  have "(pre @ [x]) ! i = best" using i by (simp add: nth_append)
  moreover have "\<forall>j < length (pre @ [x]). key best \<le> key ((pre @ [x]) ! j)"
    using le assms(2) by (auto simp: nth_append less_Suc_eq)
  moreover have "\<forall>j < i. key best < key ((pre @ [x]) ! j)"
    using lt i by (auto simp: nth_append)
  ultimately show ?thesis using i(1) unfolding first_least_def
    by (intro exI[of _ i]) simp
qed

lemma first_least_replace:
  assumes "first_least key pre best" and "key x < key best"
  shows "first_least key (pre @ [x]) x"
proof -
  from assms(1) have le: "\<forall>j < length pre. key best \<le> key (pre ! j)"
    by (auto simp: first_least_def)
  have "(pre @ [x]) ! length pre = x" by simp
  moreover have "\<forall>j < length (pre @ [x]). key x \<le> key ((pre @ [x]) ! j)"
    using le assms(2) by (auto simp: nth_append less_Suc_eq intro: less_imp_le order.strict_trans2)
  moreover have "\<forall>j < length pre. key x < key ((pre @ [x]) ! j)"
    using le assms(2) by (auto simp: nth_append intro: order.strict_trans2)
  ultimately show ?thesis unfolding first_least_def
    by (intro exI[of _ "length pre"]) simp
qed

lemma min_by_first_least:
  "first_least key pre best \<Longrightarrow> first_least key (pre @ xs) (min_by key best xs)"
proof (induction xs arbitrary: pre best)
  case Nil
  then show ?case by simp
next
  case (Cons x xs)
  let ?b = "if key x < key best then x else best"
  have "first_least key (pre @ [x]) ?b"
    using Cons.prems first_least_keep[of key pre best x] first_least_replace[of key pre best x]
    by (auto simp: not_less)
  then have "first_least key ((pre @ [x]) @ xs) (min_by key ?b xs)" by (rule Cons.IH)
  then show ?case by simp
qed

lemma min_by_hd_tl:
  assumes "xs \<noteq> []"
  shows "first_least key xs (min_by key (hd xs) (tl xs))"
proof -
  have "first_least key [hd xs] (hd xs)" by (simp add: first_least_def)
  then have "first_least key ([hd xs] @ tl xs) (min_by key (hd xs) (tl xs))"
    by (rule min_by_first_least)
  with assms show ?thesis by simp
qed

lemma hd_insort_key:
  "hd (insort_key f x ys) = (if ys = [] \<or> f x \<le> f (hd ys) then x else hd ys)"
  by (cases ys) auto

lemma sort_key_Nil_iff: "sort_key f xs = [] \<longleftrightarrow> xs = []"
  by (metis length_sort list.size(3) length_0_conv)

lemma first_least_Cons_new:
  assumes "\<forall>y \<in> set xs. f x \<le> f y"
  shows "first_least f (x # xs) x"
  unfolding first_least_def using assms
  by (intro exI[of _ 0]) (auto simp: nth_Cons split: nat.splits)

lemma first_least_Cons_old:
  assumes "first_least f xs y" and "f y < f x"
  shows "first_least f (x # xs) y"
proof -
  from assms(1) obtain i where i: "i < length xs" "xs ! i = y"
    and le: "\<forall>j < length xs. f y \<le> f (xs ! j)"
    and lt: "\<forall>j < i. f y < f (xs ! j)"
    by (auto simp: first_least_def)
  have "\<forall>j < length (x # xs). f y \<le> f ((x # xs) ! j)"
    using le assms(2) by (auto simp: nth_Cons split: nat.splits)
  moreover have "\<forall>j < Suc i. f y < f ((x # xs) ! j)"
    using lt assms(2) by (auto simp: nth_Cons split: nat.splits)
  ultimately show ?thesis using i unfolding first_least_def
    by (intro exI[of _ "Suc i"]) simp
qed

lemma first_least_le: "first_least f xs y \<Longrightarrow> z \<in> set xs \<Longrightarrow> f y \<le> f z"
  by (auto simp: first_least_def in_set_conv_nth)

lemma hd_sort_key_first_least:
  "xs \<noteq> [] \<Longrightarrow> first_least f xs (hd (sort_key f xs))"
proof (induction xs)
  case Nil
  then show ?case by simp
next
  case (Cons x xs)
  show ?case
  proof (cases "xs = []")
    case True
    then show ?thesis by (simp add: first_least_def)
  next
    case False
    then have IH: "first_least f xs (hd (sort_key f xs))" by (rule Cons.IH)
    from False have ne: "sort_key f xs \<noteq> []" by (simp add: sort_key_Nil_iff)
    have step: "hd (sort_key f (x # xs)) =
        (if f x \<le> f (hd (sort_key f xs)) then x else hd (sort_key f xs))"
      using ne by (simp add: hd_insort_key)
    show ?thesis
    proof (cases "f x \<le> f (hd (sort_key f xs))")
      case True
      have "f x \<le> f y" if "y \<in> set xs" for y
      proof -
        from IH that have "f (hd (sort_key f xs)) \<le> f y" by (rule first_least_le)
        with True show ?thesis by (rule order_trans)
      qed
      then have "first_least f (x # xs) x" by (intro first_least_Cons_new) simp
      with True show ?thesis by (simp only: step if_True)
    next
      case False
      then have "f (hd (sort_key f xs)) < f x" by simp
      with IH have "first_least f (x # xs) (hd (sort_key f xs))" by (rule first_least_Cons_old)
      with False show ?thesis by (simp only: step if_False)
    qed
  qed
qed

lemma those_map_Some:
  "those (map g xs) = Some ks \<Longrightarrow> ks = map (\<lambda>x. the (g x)) xs \<and> (\<forall>x \<in> set xs. g x \<noteq> None)"
  by (induction xs arbitrary: ks) (auto split: option.splits)

lemma those_map_None: "those (map g xs) = None \<Longrightarrow> \<exists>x \<in> set xs. g x = None"
  by (induction xs) (auto split: option.splits)

lemma first_least_zip:
  assumes "first_least fst (zip (map k xs) xs) p"
  shows "first_least k xs (snd p)"
proof -
  let ?ps = "zip (map k xs) xs"
  from assms obtain i where i: "i < length ?ps" "?ps ! i = p"
    and le: "\<forall>j < length ?ps. fst p \<le> fst (?ps ! j)"
    and lt: "\<forall>j < i. fst p < fst (?ps ! j)"
    by (auto simp: first_least_def)
  from i have p: "p = (k (xs ! i), xs ! i)" and il: "i < length xs" by auto
  have "\<forall>j < length xs. k (xs ! i) \<le> k (xs ! j)" using le p by auto
  moreover have "\<forall>j < i. k (xs ! i) < k (xs ! j)" using lt p il by auto
  ultimately show ?thesis using p il unfolding first_least_def
    by (intro exI[of _ i]) simp
qed


lemma first_least_cong:
  assumes "first_least k xs y" and "\<forall>x \<in> set xs. k x = k' x"
  shows "first_least k' xs y"
proof -
  from assms(1) obtain i where i: "i < length xs" "xs ! i = y"
    and le: "\<forall>j < length xs. k y \<le> k (xs ! j)"
    and lt: "\<forall>j < i. k y < k (xs ! j)"
    by (auto simp: first_least_def)
  from i have y: "y \<in> set xs" by auto
  have "\<forall>j < length xs. k' y \<le> k' (xs ! j)" using le assms(2) y by auto
  moreover have "\<forall>j < i. k' y < k' (xs ! j)" using lt assms(2) y i by auto
  ultimately show ?thesis using i unfolding first_least_def
    by (intro exI[of _ i]) simp
qed

lemma segment_count_below:
  "relative_to f root \<noteq> None \<Longrightarrow> segment_count root f = Some (segments_below root f)"
  by (auto simp: segment_count_def relative_to_def segments_below_def split: if_splits)

lemma start_page_canonical:
  assumes "i < length index_names"
    and "path_exists e (joinpath (httrack_dir self) (index_names ! i))"
    and "\<forall>j < i. \<not> path_exists e (joinpath (httrack_dir self) (index_names ! j))"
  shows "find_start_page e self =
           Inr (Some (str_path (joinpath (httrack_dir self) (index_names ! i))))"
proof -
  have "find (\<lambda>nm. path_exists e (joinpath (httrack_dir self) nm)) index_names =
          Some (index_names ! i)"
    using assms by (subst find_Some_iff) blast
  then show ?thesis by (simp add: find_start_page_def)
qed

lemma start_page_index_file:
  assumes none: "\<forall>nm \<in> set index_names. \<not> path_exists e (joinpath (httrack_dir self) nm)"
    and ne: "index_files self \<noteq> []"
  shows "\<exists>f. first_least (\<lambda>x. length (str_path x)) (index_files self) f \<and>
             find_start_page e self = Inr (Some (str_path f))"
proof -
  from none have f: "find (\<lambda>nm. path_exists e (joinpath (httrack_dir self) nm)) index_names = None"
    by (simp add: find_None_iff)
  let ?f = "min_by (\<lambda>x. length (str_path x)) (hd (index_files self)) (tl (index_files self))"
  from ne have "first_least (\<lambda>x. length (str_path x)) (index_files self) ?f"
    by (rule min_by_hd_tl)
  moreover from f ne have "find_start_page e self = Inr (Some (str_path ?f))"
    by (simp add: find_start_page_def index_files_def Let_def)
  ultimately show ?thesis by blast
qed

lemma start_page_shallowest:
  assumes none: "\<forall>nm \<in> set index_names. \<not> path_exists e (joinpath (httrack_dir self) nm)"
    and idx: "index_files self = []" and ne: "html_files self \<noteq> []"
    and rel: "\<forall>f \<in> set (html_files self). relative_to f (httrack_dir self) \<noteq> None"
  shows "\<exists>f. first_least (segments_below (httrack_dir self)) (html_files self) f \<and>
             find_start_page e self = Inr (Some (str_path f))"
proof -
  let ?root = "httrack_dir self" and ?files = "html_files self"
  from none have f: "find (\<lambda>nm. path_exists e (joinpath ?root nm)) index_names = None"
    by (simp add: find_None_iff)
  from rel have "map (segment_count ?root) ?files = map (\<lambda>x. Some (segments_below ?root x)) ?files"
    by (simp add: segment_count_below)
  then have "those (map (segment_count ?root) ?files) \<noteq> None"
    using those_map_None[of "segment_count ?root" ?files] rel
    by (auto simp: segment_count_below)
  then obtain ks where ks: "those (map (segment_count ?root) ?files) = Some ks" by auto
  then have "ks = map (\<lambda>x. the (segment_count ?root x)) ?files" using those_map_Some by blast
  with rel have ksm: "ks = map (segments_below ?root) ?files"
    by (simp add: segment_count_below)
  let ?h = "hd (sort_key fst (zip ks ?files))"
  from ne ksm have "zip ks ?files \<noteq> []" by (cases ?files) auto
  then have "first_least fst (zip ks ?files) ?h" by (rule hd_sort_key_first_least)
  then have fl: "first_least (segments_below ?root) ?files (snd ?h)"
    unfolding ksm by (rule first_least_zip)
  from f idx ne ks have "find_start_page e self = Inr (Some (str_path (snd ?h)))"
    by (simp add: find_start_page_def index_files_def Let_def)
  with fl show ?thesis by blast
qed

lemma start_page_none:
  "(find_start_page e self = Inr None) =
   ((\<forall>nm \<in> set index_names. \<not> path_exists e (joinpath (httrack_dir self) nm)) \<and>
    html_files self = [])"
proof (cases "find (\<lambda>nm. path_exists e (joinpath (httrack_dir self) nm)) index_names")
  case None
  then have none: "\<forall>nm \<in> set index_names. \<not> path_exists e (joinpath (httrack_dir self) nm)"
    by (simp add: find_None_iff)
  from None show ?thesis using none
    by (auto simp: find_start_page_def Let_def split: option.splits)
next
  case (Some nm)
  then have "nm \<in> set index_names \<and> path_exists e (joinpath (httrack_dir self) nm)"
    by (auto simp: find_Some_iff)
  with Some show ?thesis by (auto simp: find_start_page_def)
qed


subsection \<open>The cap in the breadth-first branch\<close>

lemma bfs_step_length: "length (ordered (bfs_step e self st)) \<le> Suc (length (ordered st))"
  by (simp add: bfs_step_def split: list.splits option.splits)

lemma bfs_loop_within_cap:
  "max_pages self = Some n \<Longrightarrow> 0 < n \<Longrightarrow> length (ordered st) \<le> nat n \<Longrightarrow>
   length (ordered (bfs_loop e self st)) \<le> nat n"
proof (induction e self st rule: bfs_loop.induct)
  case (1 e self st)
  show ?case
  proof (cases "bfs_continue self st")
    case True
    with "1.prems" have "length (ordered st) < nat n"
      by (auto simp: bfs_continue_def under_cap_def)
    then have "length (ordered (bfs_step e self st)) \<le> nat n"
      using bfs_step_length[of e self st] by simp
    with 1 True show ?thesis by (subst bfs_loop.simps) simp
  next
    case False
    with 1 show ?thesis by (subst bfs_loop.simps) simp
  qed
qed

lemma append_unvisited_within_cap:
  "0 < n \<Longrightarrow> length ord \<le> nat n \<Longrightarrow> length (append_unvisited (Some n) ks ord) \<le> nat n"
proof (induction ks arbitrary: ord)
  case Nil
  then show ?case by simp
next
  case (Cons k ks)
  let ?o = "if k \<notin> set ord then (if under_cap (Some n) (length ord) then ord @ [k] else ord)
            else ord"
  from Cons.prems have "length ?o \<le> nat n" by (auto simp: under_cap_def)
  with Cons.prems(1) have "length (append_unvisited (Some n) ks ?o) \<le> nat n" by (rule Cons.IH)
  then show ?case by simp
qed


section \<open>The claims\<close>

subsection \<open>The page cap\<close>

text \<open>
  C1: with a page cap \<open>N\<close> the final order has at most \<open>N\<close> entries, under both
  strategies. The navigation branch of \<open>build_page_tree\<close> never reads the cap: on the
  site with a navigation container and the cap 1, the order has four entries.
\<close>

theorem sidebar_order_exceeds_cap:
  "build_page_tree nav_env (indexed_site nav_env ''/site'' (Some 1)) =
     Inr [''/site/index.html'', ''/site/b.html'', ''/site/a.html'', ''/site/c.html'']"
  by code_simp

subsection \<open>The link resolver\<close>

text \<open>
  C3: exactly one leading \<open>./\<close> is stripped, and a link that starts with \<open>/\<close> is
  resolved against the root. \<open>lstrip('./')\<close> strips every leading dot and slash, so
  from \<open>/site/docs/a.html\<close> neither \<open>/b.html\<close> nor \<open>../b.html\<close> reaches the
  existing file \<open>/site/b.html\<close>: both are looked up as \<open>/site/docs/b.html\<close>.
\<close>

theorem resolve_link_misses_root_file:
  "resolve_link docs_env (indexed_site docs_env ''/site'' None)
      ''/site/docs/a.html'' ''/b.html'' = None \<and>
   resolve_link docs_env (indexed_site docs_env ''/site'' None)
      ''/site/docs/a.html'' ''../b.html'' = None \<and>
   is_file docs_env (joinpath (httrack_dir (indexed_site docs_env ''/site'' None)) ''b.html'')"
  by code_simp

subsection \<open>A zero cap\<close>

text \<open>
  C10: a cap of \<open>0\<close> (or none) is no cap. With such a cap and a start page, the
  order holds every page of the registry and is the order of the run without a cap; the
  traversal runs until its queue is empty, and the final loop is the loop without the
  cap check.
\<close>

theorem zero_cap_is_no_cap:
  assumes cap: "max_pages self = None \<or> max_pages self = Some 0"
    and start: "find_start_page e self = Inr (Some s)"
  shows "(\<exists>out. build_page_tree e self = Inr out \<and> set (keys (page_info self)) \<subseteq> set out) \<and>
         build_page_tree e self = build_page_tree e (self\<lparr>max_pages := None\<rparr>) \<and>
         bfs_fallback e self s =
           append_missing (keys (page_info self))
             (ordered (bfs_loop e self \<lparr>visited = {}, ordered = [], queue = [s]\<rparr>)) \<and>
         queue (bfs_loop e self \<lparr>visited = {}, ordered = [], queue = [s]\<rparr>) = []"
proof -
  from cap have nc: "no_cap (max_pages self)" by (simp add: no_cap_def)
  have fb: "bfs_fallback e self s =
           append_missing (keys (page_info self))
             (ordered (bfs_loop e self \<lparr>visited = {}, ordered = [], queue = [s]\<rparr>))"
    by (simp add: bfs_fallback_def append_unvisited_no_cap[OF nc])
  have fb': "bfs_fallback e (self\<lparr>max_pages := None\<rparr>) s' = bfs_fallback e self s'" for s'
    by (simp add: bfs_fallback_def bfs_loop_no_cap[OF nc] append_unvisited_no_cap[OF nc]
        append_unvisited_no_cap no_cap_def)
  have same: "build_page_tree e self = build_page_tree e (self\<lparr>max_pages := None\<rparr>)"
    by (simp add: build_page_tree_def fb' Let_def split: sum.splits option.splits)
  have "\<exists>out. build_page_tree e self = Inr out \<and> set (keys (page_info self)) \<subseteq> set out"
    using start by (simp add: build_page_tree_def Let_def fb append_missing_keys)
  with same fb bfs_loop_queue_empty[OF nc] show ?thesis by blast
qed


theorem zero_cap_is_no_cap_witness:
  "(max_pages (indexed_site (tree_env remdups) ''/site'' (Some 0)) = None \<or>
    max_pages (indexed_site (tree_env remdups) ''/site'' (Some 0)) = Some 0) \<and>
   find_start_page (tree_env remdups) (indexed_site (tree_env remdups) ''/site'' (Some 0)) =
     Inr (Some ''/site/index.html'') \<and>
   (\<exists>out. build_page_tree (tree_env remdups)
            (indexed_site (tree_env remdups) ''/site'' (Some 0)) = Inr out \<and>
          set (keys (page_info (indexed_site (tree_env remdups) ''/site'' (Some 0)))) \<subseteq> set out) \<and>
   queue (bfs_loop (tree_env remdups) (indexed_site (tree_env remdups) ''/site'' (Some 0))
            \<lparr>visited = {}, ordered = [], queue = [''/site/index.html'']\<rparr>) = []"
proof -
  have cap: "max_pages (indexed_site (tree_env remdups) ''/site'' (Some 0)) = None \<or>
    max_pages (indexed_site (tree_env remdups) ''/site'' (Some 0)) = Some 0"
    by code_simp
  have start: "find_start_page (tree_env remdups)
      (indexed_site (tree_env remdups) ''/site'' (Some 0)) = Inr (Some ''/site/index.html'')"
    by code_simp
  from zero_cap_is_no_cap[OF cap start] cap start show ?thesis by blast
qed

subsection \<open>The breadth-first order\<close>

text \<open>
  C4, as the claim states it: every path of the breadth-first order is a key of the
  registry. The traversal follows links to any existing file: \<open>404.html\<close> is excluded
  from the registry and is in the order.
\<close>

theorem bfs_reaches_unindexed_file:
  "build_page_tree broken_env (indexed_site broken_env ''/site'' None) =
     Inr [''/site/index.html'', ''/site/404.html''] \<and>
   bfs_fallback broken_env (indexed_site broken_env ''/site'' None) ''/site/index.html'' =
     [''/site/index.html'', ''/site/404.html''] \<and>
   keys (page_info (indexed_site broken_env ''/site'' None)) = [''/site/index.html'']"
  by code_simp

text \<open>
  C4, amended: the breadth-first order contains no path twice, and every path in it is
  a key of the registry or names an existing entry of the file system.
\<close>

theorem bfs_fallback_distinct:
  "distinct (bfs_fallback e self start_page) \<and>
   (\<forall>p \<in> set (bfs_fallback e self start_page).
      p \<in> set (keys (page_info self)) \<or> path_exists e (parse_path p))"
proof -
  let ?st = "bfs_loop e self \<lparr>visited = {}, ordered = [], queue = [start_page]\<rparr>"
  have "bfs_inv e \<lparr>visited = {}, ordered = [], queue = [start_page]\<rparr>"
    by (simp add: bfs_inv_def)
  then have inv: "bfs_inv e ?st" by (rule bfs_loop_inv)
  then have "distinct (ordered ?st)" by (simp add: bfs_inv_def)
  then have d: "distinct (bfs_fallback e self start_page)"
    by (simp add: bfs_fallback_def append_unvisited_distinct)
  have "set (bfs_fallback e self start_page) \<subseteq> set (ordered ?st) \<union> set (keys (page_info self))"
    by (simp add: bfs_fallback_def append_unvisited_subset)
  moreover from inv have "\<forall>p \<in> set (ordered ?st). path_exists e (parse_path p)"
    by (simp add: bfs_inv_def)
  ultimately show ?thesis using d by blast
qed

theorem bfs_fallback_distinct_witness:
  "distinct (bfs_fallback broken_env (indexed_site broken_env ''/site'' None)
      ''/site/index.html'') \<and>
   ''/site/404.html'' \<in> set (bfs_fallback broken_env (indexed_site broken_env ''/site'' None)
      ''/site/index.html'') \<and>
   (''/site/404.html'' \<in> set (keys (page_info (indexed_site broken_env ''/site'' None))) \<or>
    path_exists broken_env (parse_path ''/site/404.html''))"
proof -
  have "''/site/404.html'' \<in> set (bfs_fallback broken_env
      (indexed_site broken_env ''/site'' None) ''/site/index.html'')"
    by code_simp
  with bfs_fallback_distinct[of broken_env "indexed_site broken_env ''/site'' None"
      "''/site/index.html''"]
  show ?thesis by blast
qed

subsection \<open>The page indexer\<close>

text \<open>
  C2, as the claim states it: every stored link resolves to an existing file. The indexer
  stores the cleaned \<open>href\<close> text and never resolves it: \<open>missing.html\<close> is stored
  although no such file exists and the link resolver returns nothing for it.
\<close>

theorem dangling_link_is_stored:
  "map_option links
     (map_of (page_info (indexed_site broken_env ''/site'' None)) ''/site/index.html'') =
     Some [''404.html'', ''missing.html''] \<and>
   resolve_link broken_env (indexed_site broken_env ''/site'' None)
     ''/site/index.html'' ''missing.html'' = None \<and>
   \<not> path_exists broken_env (site_file ''missing.html'')"
  by code_simp

text \<open>
  C2, amended: the stored links of an indexed file are exactly the \<open>href\<close> values of
  its anchors, each cut before its first \<open>#\<close>, then before its first \<open>?\<close>, then
  percent-decoded, that are non-empty and end in \<open>.html\<close>, \<open>.htm\<close> or \<open>/\<close>, each
  stored once; whether a target exists is not checked. When the traversal later enqueues
  the links of a page it passes each through the link resolver and enqueues the results
  that are not yet visited, so a link without a target adds nothing.
\<close>

theorem stored_links_are_cleaned_hrefs:
  assumes ok: "set_order_ok (list_of_set e)"
    and fresh: "page_info self = []"
    and stored: "map_of (page_info (analyze_page_structure e self)) k = Some r"
  shows "(\<exists>f soup. f \<in> set (html_files self) \<and> k = str_path f \<and>
           open_parse e f = Some soup \<and> distinct (links r) \<and>
           set (links r) =
             {l. \<exists>h \<in> set (doc_hrefs soup).
                   l = unquote e (takeWhile (\<lambda>c. c \<noteq> CHR ''?'')
                                    (takeWhile (\<lambda>c. c \<noteq> CHR ''#'') h)) \<and>
                   l \<noteq> [] \<and> (\<exists>p. l = p @ ''.html'' \<or> l = p @ ''.htm'' \<or> l = p @ ''/'')}) \<and>
         (\<forall>s cur seen q.
            enqueue_links e s cur seen (links r) q =
              q @ filter (\<lambda>p. p \<notin> seen) (List.map_filter (resolve_link e s cur) (links r)))"
proof -
  from stored fresh obtain f where f: "f \<in> set (html_files self)" and k: "k = str_path f"
    and af: "analyze_file e (httrack_dir self) f = Some r"
    using analyze_loop_lookup[of e "httrack_dir self" "html_files self" "[]" k r]
    by (auto simp: analyze_page_structure_def)
  from af obtain soup where soup: "open_parse e f = Some soup"
    and l: "links r = list_of_set e (extract_links e soup)"
    using analyze_file_fields by blast
  from ok l have d: "distinct (links r)" and "set (links r) = set (extract_links e soup)"
    by (simp_all add: set_order_ok_def)
  then have "set (links r) =
             {l. \<exists>h \<in> set (doc_hrefs soup).
                   l = unquote e (takeWhile (\<lambda>c. c \<noteq> CHR ''?'')
                                    (takeWhile (\<lambda>c. c \<noteq> CHR ''#'') h)) \<and>
                   l \<noteq> [] \<and> (\<exists>p. l = p @ ''.html'' \<or> l = p @ ''.htm'' \<or> l = p @ ''/'')}"
    by (simp only: extract_links_set)
  with f k soup d have first: "\<exists>f soup. f \<in> set (html_files self) \<and> k = str_path f \<and>
           open_parse e f = Some soup \<and> distinct (links r) \<and>
           set (links r) =
             {l. \<exists>h \<in> set (doc_hrefs soup).
                   l = unquote e (takeWhile (\<lambda>c. c \<noteq> CHR ''?'')
                                    (takeWhile (\<lambda>c. c \<noteq> CHR ''#'') h)) \<and>
                   l \<noteq> [] \<and> (\<exists>p. l = p @ ''.html'' \<or> l = p @ ''.htm'' \<or> l = p @ ''/'')}"
    by (intro exI[of _ f] exI[of _ soup] conjI)
  have second: "\<forall>s cur seen q.
            enqueue_links e s cur seen (links r) q =
              q @ filter (\<lambda>p. p \<notin> seen) (List.map_filter (resolve_link e s cur) (links r))"
    by (intro allI) (rule enqueue_links_eq)
  from first second show ?thesis by (rule conjI)
qed

theorem stored_links_are_cleaned_hrefs_witness:
  "list_of_set links_env = remdups \<and>
   page_info (found_site links_env ''/site'') = [] \<and>
   map_of (page_info (analyze_page_structure links_env (found_site links_env ''/site'')))
     ''/site/index.html'' =
     Some \<lparr>title = ''index'', description = [],
           links = [''my page.html'', ''docs/'', ''missing.html'',
                    ''https://example.org/x.html'', ''a.html''],
           page_file = site_file ''index.html'', depth = 0, size_bytes = 200,
           relative_path = ''index.html''\<rparr> \<and>
   distinct [''my page.html'', ''docs/'', ''missing.html'', ''https://example.org/x.html'',
             ''a.html''] \<and>
   enqueue_links links_env (found_site links_env ''/site'') ''/site/index.html''
     {''/site/index.html''}
     [''my page.html'', ''docs/'', ''missing.html'', ''https://example.org/x.html'', ''a.html'']
     [] =
     [''/site/my page.html'', ''/site/docs/index.html'', ''/site/a.html'']"
proof -
  let ?ls = "[''my page.html'', ''docs/'', ''missing.html'', ''https://example.org/x.html'',
              ''a.html'']"
  let ?r = "\<lparr>title = ''index'', description = [], links = ?ls,
           page_file = site_file ''index.html'', depth = 0, size_bytes = 200,
           relative_path = ''index.html''\<rparr>"
  have order: "list_of_set links_env = remdups" by (simp add: links_env_def)
  then have ok: "set_order_ok (list_of_set links_env)" by (simp add: set_order_ok_def)
  have fresh: "page_info (found_site links_env ''/site'') = []" by code_simp
  have stored: "map_of (page_info (analyze_page_structure links_env
      (found_site links_env ''/site''))) ''/site/index.html'' = Some ?r"
    by code_simp
  have resolved: "filter (\<lambda>p. p \<notin> {''/site/index.html''})
          (List.map_filter
             (resolve_link links_env (found_site links_env ''/site'') ''/site/index.html'') ?ls) =
        [''/site/my page.html'', ''/site/docs/index.html'', ''/site/a.html'']"
    by code_simp
  note inst = stored_links_are_cleaned_hrefs[OF ok fresh stored]
  from inst[THEN conjunct1] have d: "distinct ?ls" by auto
  from inst[THEN conjunct2]
  have "enqueue_links links_env (found_site links_env ''/site'') ''/site/index.html''
           {''/site/index.html''} (links ?r) [] =
         [] @ filter (\<lambda>p. p \<notin> {''/site/index.html''})
                (List.map_filter
                   (resolve_link links_env (found_site links_env ''/site'') ''/site/index.html'')
                   (links ?r))"
    by (elim allE)
  then have enq: "enqueue_links links_env (found_site links_env ''/site'') ''/site/index.html''
           {''/site/index.html''} ?ls [] =
         [''/site/my page.html'', ''/site/docs/index.html'', ''/site/a.html'']"
    using resolved by simp
  from order fresh stored d enq show ?thesis by (intro conjI)
qed

text \<open>
  C8: the stored depth of an indexed file is the number of segments of its path relative
  to the root, minus one; this is the number of separators in the relative path, and it
  is 0 for a file directly under the root.
\<close>

theorem depth_counts_separators:
  assumes wf: "\<forall>g \<in> set (html_files self). wf_path g \<and> below (httrack_dir self) g"
    and fresh: "page_info self = []"
    and stored: "map_of (page_info (analyze_page_structure e self)) k = Some r"
  shows "\<exists>f rel. f \<in> set (html_files self) \<and> k = str_path f \<and>
           relative_to f (httrack_dir self) = Some rel \<and>
           relative_path r = str_path rel \<and>
           depth r = int (length (parts rel)) - 1 \<and>
           depth r = int (count_list (relative_path r) CHR ''/'') \<and>
           (parent f = httrack_dir self \<longrightarrow> depth r = 0)"
proof -
  from stored fresh obtain f where f: "f \<in> set (html_files self)" and k: "k = str_path f"
    and af: "analyze_file e (httrack_dir self) f = Some r"
    using analyze_loop_lookup[of e "httrack_dir self" "html_files self" "[]" k r]
    by (auto simp: analyze_page_structure_def)
  from af obtain rel where rel: "relative_to f (httrack_dir self) = Some rel"
    and rp: "relative_path r = str_path rel" and d: "depth r = int (length (parts rel)) - 1"
    using analyze_file_fields by blast
  from wf f have wff: "wf_path f" and bel: "below (httrack_dir self) f" by auto
  from relative_to_below[OF bel rel]
  have ne: "parts rel \<noteq> []" and na: "absolute rel = False"
    and split: "parts f = parts (httrack_dir self) @ parts rel" by auto
  from wff split have wfr: "wf_parts (parts rel)" by (simp add: wf_path_def wf_parts_append)
  from ne na have "str_path rel = join_sep (parts rel)" by (simp add: str_path_def)
  with wfr ne have "count_list (relative_path r) CHR ''/'' = length (parts rel) - 1"
    using rp count_join_sep by simp
  moreover from ne have "1 \<le> length (parts rel)" by (cases "parts rel") auto
  ultimately have c: "depth r = int (count_list (relative_path r) CHR ''/'')" using d by simp
  have "depth r = 0" if "parent f = httrack_dir self"
  proof -
    from that have "parts (parent f) = parts (httrack_dir self)" by simp
    then have "butlast (parts f) = parts (httrack_dir self)" by (simp add: parent_def)
    with split ne have "butlast (parts rel) = []"
      by (simp add: butlast_append split: if_splits)
    with ne have "length (parts rel) = 1" by (cases "parts rel") (auto split: if_splits)
    with d show ?thesis by simp
  qed
  with f k rel rp d c show ?thesis by blast
qed

theorem depth_counts_separators_witness:
  "map_of (page_info (analyze_page_structure unreadable_env (found_site unreadable_env ''/site'')))
     ''/site/docs/a.html'' =
     Some \<lparr>title = ''a'', description = [], links = [],
           page_file = Path True [''site'', ''docs'', ''a.html''], depth = 1, size_bytes = 80,
           relative_path = ''docs/a.html''\<rparr> \<and>
   (1::int) = int (count_list ''docs/a.html'' CHR ''/'')"
proof -
  let ?r = "\<lparr>title = ''a'', description = [], links = [],
           page_file = Path True [''site'', ''docs'', ''a.html''], depth = 1, size_bytes = 80,
           relative_path = ''docs/a.html''\<rparr>"
  have "list_all (\<lambda>g. wf_path g \<and> below (httrack_dir (found_site unreadable_env ''/site'')) g)
          (html_files (found_site unreadable_env ''/site''))"
    by code_simp
  then have wf: "\<forall>g \<in> set (html_files (found_site unreadable_env ''/site'')).
      wf_path g \<and> below (httrack_dir (found_site unreadable_env ''/site'')) g"
    by (simp add: list_all_iff)
  have fresh: "page_info (found_site unreadable_env ''/site'') = []" by code_simp
  have stored: "map_of (page_info (analyze_page_structure unreadable_env
      (found_site unreadable_env ''/site''))) ''/site/docs/a.html'' = Some ?r"
    by code_simp
  from depth_counts_separators[OF wf fresh stored]
  have "depth ?r = int (count_list (relative_path ?r) CHR ''/'')" by blast
  with stored show ?thesis by simp
qed

text \<open>
  C9: a file whose opening or parsing raises is left out of the registry and changes
  nothing else: the registry is the one of a run without the failing files, and every
  file whose indexing succeeds is stored with its own record.
\<close>

theorem scan_error_skips_only_that_file:
  assumes wf: "\<forall>g \<in> set (html_files self). wf_path g" and fresh: "page_info self = []"
  shows "page_info (analyze_page_structure e self) =
           page_info (analyze_page_structure e
             (self\<lparr>html_files :=
                filter (\<lambda>f. analyze_file e (httrack_dir self) f \<noteq> None) (html_files self)\<rparr>)) \<and>
         (\<forall>f \<in> set (html_files self).
            (open_parse e f = None \<longrightarrow>
               map_of (page_info (analyze_page_structure e self)) (str_path f) = None) \<and>
            (\<forall>r. analyze_file e (httrack_dir self) f = Some r \<longrightarrow>
               map_of (page_info (analyze_page_structure e self)) (str_path f) = Some r))"
proof -
  have eq: "page_info (analyze_page_structure e self) =
           page_info (analyze_page_structure e
             (self\<lparr>html_files :=
                filter (\<lambda>f. analyze_file e (httrack_dir self) f \<noteq> None) (html_files self)\<rparr>))"
    using analyze_loop_filter[of e "httrack_dir self" "html_files self" "page_info self"]
    by (simp add: analyze_page_structure_def)
  have "map_of (page_info (analyze_page_structure e self)) (str_path f) = None"
    if "f \<in> set (html_files self)" and "open_parse e f = None" for f
  proof -
    from that(2) have "analyze_file e (httrack_dir self) f = None"
      by (simp add: analyze_file_def)
    with wf that(1) fresh show ?thesis
      using analyze_loop_skipped[of "html_files self" f e "httrack_dir self" "[]"]
      by (simp add: analyze_page_structure_def)
  qed
  moreover have "map_of (page_info (analyze_page_structure e self)) (str_path f) = Some r"
    if "f \<in> set (html_files self)" and "analyze_file e (httrack_dir self) f = Some r" for f r
    using wf that analyze_loop_stored[of "html_files self" f e "httrack_dir self" r "page_info self"]
    by (simp add: analyze_page_structure_def)
  ultimately show ?thesis using eq by blast
qed

theorem scan_error_skips_only_that_file_witness:
  "list_all wf_path (html_files (found_site unreadable_env ''/site'')) \<and>
   page_info (found_site unreadable_env ''/site'') = [] \<and>
   site_file ''bad.html'' \<in> set (html_files (found_site unreadable_env ''/site'')) \<and>
   open_parse unreadable_env (site_file ''bad.html'') = None \<and>
   map_of (page_info (analyze_page_structure unreadable_env (found_site unreadable_env ''/site'')))
     (str_path (site_file ''bad.html'')) = None \<and>
   keys (page_info (analyze_page_structure unreadable_env (found_site unreadable_env ''/site''))) =
     [''/site/index.html'', ''/site/docs/a.html'']"
proof -
  have wf: "list_all wf_path (html_files (found_site unreadable_env ''/site''))" by code_simp
  then have wf': "\<forall>g \<in> set (html_files (found_site unreadable_env ''/site'')). wf_path g"
    by (simp add: list_all_iff)
  have fresh: "page_info (found_site unreadable_env ''/site'') = []" by code_simp
  have bad: "site_file ''bad.html'' \<in> set (html_files (found_site unreadable_env ''/site''))"
    by code_simp
  have op: "open_parse unreadable_env (site_file ''bad.html'') = None" by code_simp
  have ks: "keys (page_info (analyze_page_structure unreadable_env
      (found_site unreadable_env ''/site''))) = [''/site/index.html'', ''/site/docs/a.html'']"
    by code_simp
  from scan_error_skips_only_that_file[OF wf' fresh, of unreadable_env] bad op
  have "map_of (page_info (analyze_page_structure unreadable_env
      (found_site unreadable_env ''/site''))) (str_path (site_file ''bad.html'')) = None"
    by blast
  with wf fresh bad op ks show ?thesis by simp
qed

subsection \<open>The choice of the strategy\<close>

text \<open>
  C5, as the claim states it: the breadth-first fallback runs when the navigation
  container yields zero entries. The sequence of the navigation branch always holds the
  start page, so a container without a single usable anchor still selects that branch:
  the order is the start page followed by the registry in its own order, not the
  breadth-first order.
\<close>

theorem empty_navigation_is_not_a_fallback:
  "nav_container empty_nav_env ''/site/index.html'' = Some [''https://example.org/'', ''#top''] \<and>
   extract_sidebar_order empty_nav_env (indexed_site empty_nav_env ''/site'' None)
     ''/site/index.html'' = [''/site/index.html''] \<and>
   build_page_tree empty_nav_env (indexed_site empty_nav_env ''/site'' None) =
     Inr [''/site/index.html'', ''/site/b.html'', ''/site/a.html''] \<and>
   bfs_fallback empty_nav_env (indexed_site empty_nav_env ''/site'' None) ''/site/index.html'' =
     [''/site/index.html'', ''/site/a.html'', ''/site/b.html'']"
  by code_simp

text \<open>
  C5, amended: the breadth-first fallback runs exactly when the start page cannot be
  opened or has no navigation container. When there is a container, whatever it yields,
  the order begins with the start page followed by the resolved targets of the
  container's anchors in document order, each once; the registry pages not among them
  follow in registry order, and nothing is re-ordered.
\<close>

theorem navigation_order_is_kept:
  assumes start: "find_start_page e self = Inr (Some s)"
    and dk: "distinct (keys (page_info self))"
  shows "build_page_tree e self =
           Inr (case nav_container e s of
                  None \<Rightarrow> bfs_fallback e self s
                | Some hrefs \<Rightarrow>
                    (let nav = s # first_occurrences
                                     (filter (\<lambda>t. t \<noteq> s)
                                        (List.map_filter (nav_target e self s) hrefs))
                     in nav @ filter (\<lambda>k. k \<notin> set nav) (keys (page_info self))))"
proof (cases "nav_container e s")
  case None
  then have "extract_sidebar_order e self s = []"
    by (auto simp: nav_container_def extract_sidebar_order_def split: option.splits)
  with start None show ?thesis by (simp add: build_page_tree_def)
next
  case (Some hrefs)
  let ?nav = "s # first_occurrences
                     (filter (\<lambda>t. t \<noteq> s) (List.map_filter (nav_target e self s) hrefs))"
  from Some have "extract_sidebar_order e self s = sidebar_loop e self s hrefs [s]"
    by (auto simp: nav_container_def extract_sidebar_order_def split: option.splits)
  then have eo: "extract_sidebar_order e self s = ?nav" by (simp add: sidebar_loop_eq)
  with start Some dk show ?thesis
    by (simp add: build_page_tree_def append_missing_eq Let_def)
qed

theorem navigation_order_is_kept_witness:
  "find_start_page nav_env (indexed_site nav_env ''/site'' None) =
     Inr (Some ''/site/index.html'') \<and>
   distinct (keys (page_info (indexed_site nav_env ''/site'' None))) \<and>
   nav_container nav_env ''/site/index.html'' = Some [''b.html'', ''a.html''] \<and>
   build_page_tree nav_env (indexed_site nav_env ''/site'' None) =
     Inr [''/site/index.html'', ''/site/b.html'', ''/site/a.html'', ''/site/c.html'']"
proof -
  have start: "find_start_page nav_env (indexed_site nav_env ''/site'' None) =
     Inr (Some ''/site/index.html'')"
    by code_simp
  have dk: "distinct (keys (page_info (indexed_site nav_env ''/site'' None)))" by code_simp
  have nc: "nav_container nav_env ''/site/index.html'' = Some [''b.html'', ''a.html'']"
    by code_simp
  have "(let nav = ''/site/index.html'' # first_occurrences
                     (filter (\<lambda>t. t \<noteq> ''/site/index.html'')
                        (List.map_filter
                           (nav_target nav_env (indexed_site nav_env ''/site'' None)
                              ''/site/index.html'')
                           [''b.html'', ''a.html'']))
         in nav @ filter (\<lambda>k. k \<notin> set nav)
                    (keys (page_info (indexed_site nav_env ''/site'' None)))) =
        [''/site/index.html'', ''/site/b.html'', ''/site/a.html'', ''/site/c.html'']"
    by code_simp
  with navigation_order_is_kept[OF start dk] start dk nc show ?thesis by simp
qed

subsection \<open>The breadth-first scenario\<close>

text \<open>
  C7, as the claim states it: on the tree \<open>index.html\<close> \<open>\<rightarrow>\<close> \<open>a.html\<close>, \<open>b.html\<close>
  and \<open>a.html\<close> \<open>\<rightarrow>\<close> \<open>c.html\<close> the order is \<open>index, a, b, c\<close>. The registry
  holds \<open>list(set(links))\<close>, whose order Python does not fix; with an enumeration
  that yields \<open>b.html\<close> first the order is \<open>index, b, a, c\<close>.
\<close>

theorem set_order_decides_tree_order:
  "set_order_ok (\<lambda>xs. rev (remdups xs)) \<and>
   build_page_tree (tree_env (\<lambda>xs. rev (remdups xs)))
     (indexed_site (tree_env (\<lambda>xs. rev (remdups xs))) ''/site'' None) =
     Inr [''/site/index.html'', ''/site/b.html'', ''/site/a.html'', ''/site/c.html'']"
proof
  show "set_order_ok (\<lambda>xs. rev (remdups xs))" by (simp add: set_order_ok_def)
  show "build_page_tree (tree_env (\<lambda>xs. rev (remdups xs)))
     (indexed_site (tree_env (\<lambda>xs. rev (remdups xs))) ''/site'' None) =
     Inr [''/site/index.html'', ''/site/b.html'', ''/site/a.html'', ''/site/c.html'']"
    by code_simp
qed

text \<open>
  C7, amended: on that tree the order is \<open>index.html\<close>, then \<open>a.html\<close> and
  \<open>b.html\<close> in the order in which the registry lists the links of \<open>index.html\<close>,
  then \<open>c.html\<close>: the traversal enqueues the links of a page in the order of the
  registry's list, which is the order of \<open>list(set(links))\<close> and not that of the
  document.
\<close>

theorem tree_order_follows_link_order:
  assumes ok: "set_order_ok order"
  shows "build_page_tree (tree_env order) (indexed_site (tree_env order) ''/site'' None) =
           Inr (''/site/index.html'' #
                map (\<lambda>link. ''/site/'' @ link) (order [''a.html'', ''b.html'']) @
                [''/site/c.html''])"
proof -
  from ok have "set (order []) = set ([]::string list)" unfolding set_order_ok_def by blast
  then have o0: "order [] = []" by simp
  from ok have "distinct (order [''c.html''])" and "set (order [''c.html'']) = {''c.html''}"
    by (simp_all add: set_order_ok_def)
  then have o1: "order [''c.html''] = [''c.html'']" by (rule distinct_set_one)
  from ok have "distinct (order [''a.html'', ''b.html''])"
    and "set (order [''a.html'', ''b.html'']) = {''a.html'', ''b.html''}"
    by (simp_all add: set_order_ok_def)
  then have "order [''a.html'', ''b.html''] = [''a.html'', ''b.html''] \<or>
             order [''a.html'', ''b.html''] = [''b.html'', ''a.html'']"
    by (rule distinct_set_two) simp
  then show ?thesis
  proof
    assume o2: "order [''a.html'', ''b.html''] = [''a.html'', ''b.html'']"
    show ?thesis unfolding tree_registry o0 o1 o2 by code_simp
  next
    assume o2: "order [''a.html'', ''b.html''] = [''b.html'', ''a.html'']"
    show ?thesis unfolding tree_registry o0 o1 o2 by code_simp
  qed
qed

theorem tree_order_follows_link_order_witness:
  "set_order_ok remdups \<and>
   build_page_tree (tree_env remdups) (indexed_site (tree_env remdups) ''/site'' None) =
     Inr [''/site/index.html'', ''/site/a.html'', ''/site/b.html'', ''/site/c.html'']"
proof -
  have ok: "set_order_ok remdups" by (simp add: set_order_ok_def)
  have "''/site/index.html'' # map (\<lambda>link. ''/site/'' @ link) (remdups [''a.html'', ''b.html'']) @
          [''/site/c.html''] =
        [''/site/index.html'', ''/site/a.html'', ''/site/b.html'', ''/site/c.html'']"
    by code_simp
  with tree_order_follows_link_order[OF ok] ok show ?thesis by simp
qed

subsection \<open>The start page\<close>

text \<open>
  C6: the tiers of \<open>find_start_page\<close> in order. The canonical names are the eight
  listed, in that order, and the first of them that exists under the root wins. When
  none exists, the result is the first of the files whose name contains \<open>index\<close> (in
  any case) with the shortest path string; when there is no such file, the first of the
  discovered files with the fewest segments below the root (the files lie below the
  root, or \<open>relative_to\<close> raises). The result is none exactly when no canonical name
  exists and no file was discovered.
\<close>

theorem find_start_page_tiers:
  "index_names =
     [''index.html'', ''index.htm'', ''home.html'', ''home.htm'',
      ''default.html'', ''default.htm'', ''main.html'', ''main.htm''] \<and>
   (\<forall>i < length index_names.
      path_exists e (joinpath (httrack_dir self) (index_names ! i)) \<and>
      (\<forall>j < i. \<not> path_exists e (joinpath (httrack_dir self) (index_names ! j))) \<longrightarrow>
      find_start_page e self =
        Inr (Some (str_path (joinpath (httrack_dir self) (index_names ! i))))) \<and>
   ((\<forall>nm \<in> set index_names. \<not> path_exists e (joinpath (httrack_dir self) nm)) \<longrightarrow>
      (index_files self \<noteq> [] \<longrightarrow>
         (\<exists>f. first_least (\<lambda>x. length (str_path x)) (index_files self) f \<and>
              find_start_page e self = Inr (Some (str_path f)))) \<and>
      (index_files self = [] \<and> html_files self \<noteq> [] \<and>
       (\<forall>f \<in> set (html_files self). relative_to f (httrack_dir self) \<noteq> None) \<longrightarrow>
         (\<exists>f. first_least (segments_below (httrack_dir self)) (html_files self) f \<and>
              find_start_page e self = Inr (Some (str_path f))))) \<and>
   (find_start_page e self = Inr None \<longleftrightarrow>
      (\<forall>nm \<in> set index_names. \<not> path_exists e (joinpath (httrack_dir self) nm)) \<and>
      html_files self = [])"
proof (intro conjI)
  show "index_names =
     [''index.html'', ''index.htm'', ''home.html'', ''home.htm'',
      ''default.html'', ''default.htm'', ''main.html'', ''main.htm'']"
    by (rule index_names_def)
  show "\<forall>i < length index_names.
      path_exists e (joinpath (httrack_dir self) (index_names ! i)) \<and>
      (\<forall>j < i. \<not> path_exists e (joinpath (httrack_dir self) (index_names ! j))) \<longrightarrow>
      find_start_page e self =
        Inr (Some (str_path (joinpath (httrack_dir self) (index_names ! i))))"
    using start_page_canonical[of _ e self] by blast
  show "(\<forall>nm \<in> set index_names. \<not> path_exists e (joinpath (httrack_dir self) nm)) \<longrightarrow>
      (index_files self \<noteq> [] \<longrightarrow>
         (\<exists>f. first_least (\<lambda>x. length (str_path x)) (index_files self) f \<and>
              find_start_page e self = Inr (Some (str_path f)))) \<and>
      (index_files self = [] \<and> html_files self \<noteq> [] \<and>
       (\<forall>f \<in> set (html_files self). relative_to f (httrack_dir self) \<noteq> None) \<longrightarrow>
         (\<exists>f. first_least (segments_below (httrack_dir self)) (html_files self) f \<and>
              find_start_page e self = Inr (Some (str_path f))))"
    using start_page_index_file[of e self] start_page_shallowest[of e self] by blast
  show "find_start_page e self = Inr None \<longleftrightarrow>
      (\<forall>nm \<in> set index_names. \<not> path_exists e (joinpath (httrack_dir self) nm)) \<and>
      html_files self = []"
    by (rule start_page_none)
qed

theorem find_start_page_tiers_witness:
  "find_start_page home_env (indexed_site home_env ''/site'' None) =
     Inr (Some ''/site/home.html'') \<and>
   index_files (indexed_site index_tie_env ''/site'' None) =
     [Path True [''site'', ''handbook'', ''index.html''],
      Path True [''site'', ''api'', ''Index.html''],
      Path True [''site'', ''faq'', ''index.html'']] \<and>
   (\<exists>f. first_least (\<lambda>x. length (str_path x))
          (index_files (indexed_site index_tie_env ''/site'' None)) f \<and>
        find_start_page index_tie_env (indexed_site index_tie_env ''/site'' None) =
          Inr (Some (str_path f))) \<and>
   find_start_page index_tie_env (indexed_site index_tie_env ''/site'' None) =
     Inr (Some ''/site/api/Index.html'') \<and>
   html_files (indexed_site shallow_env ''/site'' None) =
     [Path True [''site'', ''x'', ''y'', ''a.html''],
      Path True [''site'', ''z'', ''b.html''],
      Path True [''site'', ''w'', ''c.html'']] \<and>
   (\<exists>f. first_least (segments_below (httrack_dir (indexed_site shallow_env ''/site'' None)))
          (html_files (indexed_site shallow_env ''/site'' None)) f \<and>
        find_start_page shallow_env (indexed_site shallow_env ''/site'' None) =
          Inr (Some (str_path f))) \<and>
   find_start_page shallow_env (indexed_site shallow_env ''/site'' None) =
     Inr (Some ''/site/z/b.html'') \<and>
   html_files (indexed_site empty_env ''/site'' None) = [] \<and>
   find_start_page empty_env (indexed_site empty_env ''/site'' None) = Inr None"
proof -
  let ?S1 = "indexed_site home_env ''/site'' None"
  let ?S2 = "indexed_site index_tie_env ''/site'' None"
  let ?S3 = "indexed_site shallow_env ''/site'' None"
  let ?S4 = "indexed_site empty_env ''/site'' None"

  \<comment> \<open>tier 1: \<open>home.html\<close> is the third canonical name, before \<open>main.htm\<close>\<close>
  have len: "2 < length index_names" by (simp add: index_names_def)
  have ex2: "path_exists home_env (joinpath (httrack_dir ?S1) (index_names ! 2))" by code_simp
  have n0: "\<not> path_exists home_env (joinpath (httrack_dir ?S1) (index_names ! 0))" by code_simp
  have n1: "\<not> path_exists home_env (joinpath (httrack_dir ?S1) (index_names ! 1))" by code_simp
  have before: "\<forall>j < 2. \<not> path_exists home_env (joinpath (httrack_dir ?S1) (index_names ! j))"
  proof (intro allI impI)
    fix j :: nat
    assume "j < 2"
    then have "j = 0 \<or> j = 1" by arith
    with n0 n1 show "\<not> path_exists home_env (joinpath (httrack_dir ?S1) (index_names ! j))"
      by auto
  qed
  have nm: "str_path (joinpath (httrack_dir ?S1) (index_names ! 2)) = ''/site/home.html''"
    by code_simp
  from find_start_page_tiers[of home_env ?S1, THEN conjunct2, THEN conjunct1] len ex2 before
  have "find_start_page home_env ?S1 =
          Inr (Some (str_path (joinpath (httrack_dir ?S1) (index_names ! 2))))"
    by blast
  with nm have t1: "find_start_page home_env ?S1 = Inr (Some ''/site/home.html'')" by simp

  \<comment> \<open>tier 2: the shortest path wins, the first of two of the same length\<close>
  have "list_all (\<lambda>nm. \<not> path_exists index_tie_env (joinpath (httrack_dir ?S2) nm)) index_names"
    by code_simp
  then have none2: "\<forall>nm \<in> set index_names.
      \<not> path_exists index_tie_env (joinpath (httrack_dir ?S2) nm)"
    by (simp add: list_all_iff)
  have idx: "index_files ?S2 =
     [Path True [''site'', ''handbook'', ''index.html''],
      Path True [''site'', ''api'', ''Index.html''],
      Path True [''site'', ''faq'', ''index.html'']]"
    by code_simp
  then have ne2: "index_files ?S2 \<noteq> []" by simp
  from find_start_page_tiers[of index_tie_env ?S2, THEN conjunct2, THEN conjunct2, THEN conjunct1]
    none2 ne2
  have t2: "\<exists>f. first_least (\<lambda>x. length (str_path x)) (index_files ?S2) f \<and>
        find_start_page index_tie_env ?S2 = Inr (Some (str_path f))"
    by blast
  have r2: "find_start_page index_tie_env ?S2 = Inr (Some ''/site/api/Index.html'')"
    by code_simp

  \<comment> \<open>tier 3: the fewest segments win, the first of two of the same depth\<close>
  have "list_all (\<lambda>nm. \<not> path_exists shallow_env (joinpath (httrack_dir ?S3) nm)) index_names"
    by code_simp
  then have none3: "\<forall>nm \<in> set index_names.
      \<not> path_exists shallow_env (joinpath (httrack_dir ?S3) nm)"
    by (simp add: list_all_iff)
  have idx3: "index_files ?S3 = []" by code_simp
  have files3: "html_files ?S3 =
     [Path True [''site'', ''x'', ''y'', ''a.html''],
      Path True [''site'', ''z'', ''b.html''],
      Path True [''site'', ''w'', ''c.html'']]"
    by code_simp
  then have ne3: "html_files ?S3 \<noteq> []" by simp
  have "list_all (\<lambda>f. relative_to f (httrack_dir ?S3) \<noteq> None) (html_files ?S3)"
    by code_simp
  then have rel3: "\<forall>f \<in> set (html_files ?S3). relative_to f (httrack_dir ?S3) \<noteq> None"
    by (simp add: list_all_iff)
  from find_start_page_tiers[of shallow_env ?S3, THEN conjunct2, THEN conjunct2, THEN conjunct1]
    none3 idx3 ne3 rel3
  have t3: "\<exists>f. first_least (segments_below (httrack_dir ?S3)) (html_files ?S3) f \<and>
        find_start_page shallow_env ?S3 = Inr (Some (str_path f))"
    by blast
  have r3: "find_start_page shallow_env ?S3 = Inr (Some ''/site/z/b.html'')" by code_simp

  \<comment> \<open>no file at all\<close>
  have "list_all (\<lambda>nm. \<not> path_exists empty_env (joinpath (httrack_dir ?S4) nm)) index_names"
    by code_simp
  then have none4: "\<forall>nm \<in> set index_names.
      \<not> path_exists empty_env (joinpath (httrack_dir ?S4) nm)"
    by (simp add: list_all_iff)
  have files4: "html_files ?S4 = []" by code_simp
  from find_start_page_tiers[of empty_env ?S4, THEN conjunct2, THEN conjunct2, THEN conjunct2]
    none4 files4
  have r4: "find_start_page empty_env ?S4 = Inr None" by blast

  from t1 idx t2 r2 files3 t3 r3 files4 r4 show ?thesis by (intro conjI)
qed

subsection \<open>Further properties\<close>

text \<open>
  The breadth-first branch does respect a positive cap: its loop stops at the cap and
  its final loop appends nothing beyond it.
\<close>

theorem bfs_fallback_within_cap:
  assumes "max_pages self = Some n" and "0 < n"
  shows "length (bfs_fallback e self start_page) \<le> nat n"
proof -
  have "length (ordered (bfs_loop e self \<lparr>visited = {}, ordered = [], queue = [start_page]\<rparr>))
          \<le> nat n"
    using assms by (intro bfs_loop_within_cap) simp_all
  with assms show ?thesis by (simp add: bfs_fallback_def append_unvisited_within_cap)
qed

theorem bfs_fallback_within_cap_witness:
  "max_pages (indexed_site (tree_env remdups) ''/site'' (Some 2)) = Some 2 \<and> (0::int) < 2 \<and>
   length (bfs_fallback (tree_env remdups) (indexed_site (tree_env remdups) ''/site'' (Some 2))
             ''/site/index.html'') \<le> nat 2 \<and>
   bfs_fallback (tree_env remdups) (indexed_site (tree_env remdups) ''/site'' (Some 2))
     ''/site/index.html'' = [''/site/index.html'', ''/site/a.html'']"
proof -
  have cap: "max_pages (indexed_site (tree_env remdups) ''/site'' (Some 2)) = Some 2"
    by code_simp
  have res: "bfs_fallback (tree_env remdups) (indexed_site (tree_env remdups) ''/site'' (Some 2))
     ''/site/index.html'' = [''/site/index.html'', ''/site/a.html'']"
    by code_simp
  from bfs_fallback_within_cap[OF cap, of "tree_env remdups" "''/site/index.html''"] cap res
  show ?thesis by simp
qed

text \<open>
  The link resolver never reads the root directory: after \<open>lstrip('./')\<close> no link
  starts with \<open>/\<close>, so the branch that joins the link to the root cannot run.
\<close>

theorem resolve_link_ignores_root:
  "resolve_link e (self\<lparr>httrack_dir := root\<rparr>) current_page link =
   resolve_link e self current_page link"
proof -
  have "\<not> startswith (lstrip ''./'' link) ''/''" by (rule lstrip_no_slash)
  then show ?thesis by (auto simp: resolve_link_def Let_def)
qed

end
